theory Spec2Isabelle
  imports Complex_Main "HOL-Library.Sublist"
begin

section \<open>Strings\<close>

text \<open>
  A JavaScript string is modelled as a \<^typ>\<open>string\<close>: a list of code units, restricted to
  the code units below 256. The white space that \<^verbatim>\<open>String.prototype.trim\<close> strips is, in
  that range: tab, line feed, vertical tab, form feed, carriage return, space and the
  no-break space.
\<close>

definition is_white_space :: "char \<Rightarrow> bool" where
  "is_white_space c \<longleftrightarrow>
     c = CHR 0x09 \<or> c = CHR 0x0A \<or> c = CHR 0x0B \<or> c = CHR 0x0C \<or> c = CHR 0x0D \<or>
     c = CHR 0x20 \<or> c = CHR 0xA0"

definition trim :: "string \<Rightarrow> string" where
  "trim k = rev (dropWhile is_white_space (rev (dropWhile is_white_space k)))"

text \<open>
  \<^verbatim>\<open>str.split(',')\<close>: the pieces between the commas, in order. The empty string gives one
  empty piece, and a trailing comma gives a final empty piece.
\<close>

fun split_comma :: "string \<Rightarrow> string list" where
  "split_comma [] = [[]]"
| "split_comma (c # cs) =
     (if c = CHR '','' then [] # split_comma cs
      else (case split_comma cs of
              [] \<Rightarrow> [[c]]
            | p # ps \<Rightarrow> (c # p) # ps))"

text \<open>\<^verbatim>\<open>str.includes(needle)\<close>: \<open>needle\<close> occurs in \<open>str\<close> as a contiguous run.\<close>

fun includes_str :: "string \<Rightarrow> string \<Rightarrow> bool" where
  "includes_str [] needle = (needle = [])"
| "includes_str (c # cs) needle = (prefix needle (c # cs) \<or> includes_str cs needle)"

text \<open>
  \<^verbatim>\<open>str.substring(start, end)\<close>: both indices are clamped to \<open>0 .. length\<close> and swapped when
  \<open>start\<close> is the larger one. With one argument, \<open>end\<close> is the length of the string.
\<close>

definition clamp_index :: "string \<Rightarrow> int \<Rightarrow> nat" where
  "clamp_index str i = (if i < 0 then 0 else min (nat i) (length str))"

definition substring :: "string \<Rightarrow> int \<Rightarrow> int \<Rightarrow> string" where
  "substring str start stop =
     (let a = clamp_index str start; b = clamp_index str stop
      in take (max a b - min a b) (drop (min a b) str))"

definition substring_from :: "string \<Rightarrow> int \<Rightarrow> string" where
  "substring_from str start = substring str start (int (length str))"

section \<open>Values thrown by an operation\<close>

text \<open>
  The values that the code inspects. \<open>Num\<close> is a number with an integral value, \<open>Obj\<close> any
  other object, named by its reference, that has no \<^verbatim>\<open>includes\<close> member.
\<close>

datatype js_value = Undefined | Null | Bool bool | Num int | Str string | Obj nat

text \<open>
  What a rejected operation throws: \<open>Plain v\<close> is a value without \<^verbatim>\<open>message\<close> and \<^verbatim>\<open>status\<close>
  properties (a primitive, \<^verbatim>\<open>null\<close>, \<^verbatim>\<open>undefined\<close> or a bare object); \<open>Err r m st\<close> is the
  object with reference \<open>r\<close> whose \<^verbatim>\<open>message\<close> is \<open>m\<close> and whose \<^verbatim>\<open>status\<close> is \<open>st\<close>, an absent
  property being \<open>Undefined\<close>.
\<close>

datatype thrown = Plain js_value | Err nat js_value js_value

text \<open>The exception that the runtime itself raises on an ill-typed access.\<close>

datatype runtime_error = TypeError

text \<open>Reading a property of \<^verbatim>\<open>null\<close> or \<^verbatim>\<open>undefined\<close> raises; of another value it does not.\<close>

fun message :: "thrown \<Rightarrow> runtime_error + js_value" where
  "message (Plain Undefined) = Inl TypeError"
| "message (Plain Null) = Inl TypeError"
| "message (Plain v) = Inr Undefined"
| "message (Err r m st) = Inr m"

fun status :: "thrown \<Rightarrow> runtime_error + js_value" where
  "status (Plain Undefined) = Inl TypeError"
| "status (Plain Null) = Inl TypeError"
| "status (Plain v) = Inr Undefined"
| "status (Err r m st) = Inr st"

text \<open>
  The truth value of \<^verbatim>\<open>v?.includes(needle)\<close>: \<^verbatim>\<open>undefined\<close> (falsy) when \<open>v\<close> is nullish, the
  substring test when \<open>v\<close> is a string, and a \<^verbatim>\<open>TypeError\<close> when \<open>v\<close> has no such method.
\<close>

fun opt_includes :: "js_value \<Rightarrow> string \<Rightarrow> runtime_error + bool" where
  "opt_includes Undefined needle = Inr False"
| "opt_includes Null needle = Inr False"
| "opt_includes (Str m) needle = Inr (includes_str m needle)"
| "opt_includes v needle = Inl TypeError"

text \<open>
  The test of \<^verbatim>\<open>executeWithRetry\<close>'s handler,
  \<^verbatim>\<open>error.message?.includes('429') || error.message?.includes('Resource has been exhausted') || error.status === 429\<close>,
  evaluated from left to right with the short cut of \<^verbatim>\<open>||\<close>.
\<close>

definition isRateLimit :: "thrown \<Rightarrow> runtime_error + bool" where
  "isRateLimit error =
     (case message error of
        Inl t \<Rightarrow> Inl t
      | Inr m \<Rightarrow>
         (case opt_includes m ''429'' of
            Inl t \<Rightarrow> Inl t
          | Inr True \<Rightarrow> Inr True
          | Inr False \<Rightarrow>
             (case opt_includes m ''Resource has been exhausted'' of
                Inl t \<Rightarrow> Inl t
              | Inr True \<Rightarrow> Inr True
              | Inr False \<Rightarrow>
                 (case status error of
                    Inl t \<Rightarrow> Inl t
                  | Inr st \<Rightarrow> Inr (st = Num 429)))))"

section \<open>Numbers\<close>

text \<open>
  A JavaScript number is an IEEE 754 double; the model keeps its value as a real. The
  integer nearest to \<open>t\<close>, a tie going to the even one:
\<close>

definition round_half_even :: "real \<Rightarrow> int" where
  "round_half_even t =
     (let f = \<lfloor>t\<rfloor>; d = t - of_int f
      in if d < 1 / 2 then f else if 1 / 2 < d then f + 1 else if even f then f else f + 1)"

text \<open>
  The distance between neighbouring doubles around \<open>x \<noteq> 0\<close>: 52 binary places below the
  leading bit of \<open>x\<close>, and no finer than the subnormal doubles.
\<close>

definition ulp :: "real \<Rightarrow> real" where
  "ulp x = 2 powi (max \<lfloor>log 2 \<bar>x\<bar>\<rfloor> (- 1022) - 52)"

text \<open>
  The result of an arithmetic operation whose exact value is \<open>x\<close>: the double nearest to
  \<open>x\<close>, for a magnitude below \<open>2 ^ 1024\<close> (the overflow to \<^verbatim>\<open>Infinity\<close> is left out; the
  numbers of this code stay below 512).
\<close>

definition to_double :: "real \<Rightarrow> real" where
  "to_double x = (if x = 0 then 0 else of_int (round_half_even (x / ulp x)) * ulp x)"

section \<open>State and observable effects\<close>

text \<open>
  The lines written to the console, without their decoration: the error of an empty pool,
  the line \<^verbatim>\<open>Using Key #k/n: masked\<close>, and the warning \<^verbatim>\<open>(Attempt i/maxRetries)\<close>.
\<close>

datatype log_entry = NoKeysFound | UsingKey nat nat string | RateLimitHit nat nat

text \<open>What one logical call does to the outside: it invokes the operation and it sleeps.\<close>

datatype effect = Invoke string | SetTimeout real

text \<open>
  \<open>keyIndex\<close> is the module's only variable. \<open>console\<close> and \<open>effects\<close> record, in order, what
  has been logged and done so far.
\<close>

record state =
  keyIndex :: nat
  console :: "log_entry list"
  effects :: "effect list"

definition initial_state :: state where
  "initial_state = \<lparr>keyIndex = 0, console = [], effects = []\<rparr>"

section \<open>The key pool\<close>

text \<open>\<^verbatim>\<open>process.env.API_KEY || ""\<close>, where \<open>None\<close> is an unset variable.\<close>

definition keysRaw :: "string option \<Rightarrow> string" where
  "keysRaw API_KEY = (case API_KEY of None \<Rightarrow> [] | Some v \<Rightarrow> if v = [] then [] else v)"

text \<open>The pool as \<^verbatim>\<open>getNextApiKey\<close> computes it: split, trim each piece, keep the non-empty.\<close>

definition keys :: "string option \<Rightarrow> string list" where
  "keys API_KEY = filter (\<lambda>k. k \<noteq> []) (map trim (split_comma (keysRaw API_KEY)))"

text \<open>The pool as \<^verbatim>\<open>executeWithRetry\<close> computes it: split, keep the pieces with a non-empty trim.\<close>

definition retry_keys :: "string option \<Rightarrow> string list" where
  "retry_keys API_KEY = filter (\<lambda>k. trim k \<noteq> []) (split_comma (keysRaw API_KEY))"

definition maskedKey :: "string \<Rightarrow> string" where
  "maskedKey key = substring key 0 8 @ ''...'' @ substring_from key (int (length key) - 4)"

text \<open>
  \<^verbatim>\<open>getNextApiKey\<close>. With an empty pool it logs and returns the empty string. Otherwise it
  reads \<^verbatim>\<open>keys[keyIndex]\<close>, which is \<^verbatim>\<open>undefined\<close> out of range, so that \<^verbatim>\<open>key.substring\<close>
  raises before anything is logged or changed.
\<close>

definition getNextApiKey :: "string option \<Rightarrow> state \<Rightarrow> runtime_error + (string \<times> state)" where
  "getNextApiKey API_KEY s =
     (let ks = keys API_KEY in
      if length ks = 0 then Inr ([], s\<lparr>console := console s @ [NoKeysFound]\<rparr>)
      else if keyIndex s < length ks then
        (let key = ks ! keyIndex s
         in Inr (key,
              s\<lparr>console := console s @ [UsingKey (keyIndex s + 1) (length ks) (maskedKey key)],
                keyIndex := (keyIndex s + 1) mod length ks\<rparr>))
      else Inl TypeError)"

section \<open>The retry loop\<close>

text \<open>How the promise of one invocation of the operation settles.\<close>

datatype 'a attempt = Fulfilled 'a | Rejected thrown

text \<open>
  How the promise of \<^verbatim>\<open>executeWithRetry\<close> is rejected: with the value that the operation
  threw, or with an exception raised by the runtime inside \<^verbatim>\<open>executeWithRetry\<close> itself.
\<close>

datatype rejection = Thrown thrown | Raised runtime_error

text \<open>
  The \<^verbatim>\<open>for\<close> loop of \<^verbatim>\<open>executeWithRetry\<close>, from iteration \<open>i\<close> on. The operation and
  \<^verbatim>\<open>Math.random\<close> belong to the environment: \<open>operation i apiKey\<close> is how the invocation made
  in iteration \<open>i\<close> settles when it is handed \<open>apiKey\<close>, and \<open>random i\<close> is the number drawn in
  iteration \<open>i\<close>. The delay \<^verbatim>\<open>200 + Math.random() * 300\<close> is a product and a sum of doubles,
  each rounded. This is the loop of a call that runs alone: no other call is issued a
  credential while it awaits the operation or the delay.
\<close>

function retry_loop ::
  "string option \<Rightarrow> (nat \<Rightarrow> string \<Rightarrow> 'a attempt) \<Rightarrow> (nat \<Rightarrow> real) \<Rightarrow> nat \<Rightarrow> nat \<Rightarrow> thrown \<Rightarrow>
   state \<Rightarrow> (rejection + 'a) \<times> state" where
  "retry_loop API_KEY operation random maxRetries i lastError s =
     (if i < maxRetries then
        (case getNextApiKey API_KEY s of
           Inl t \<Rightarrow> (Inl (Raised t), s)
         | Inr (apiKey, s1) \<Rightarrow>
            (let s2 = s1\<lparr>effects := effects s1 @ [Invoke apiKey]\<rparr> in
             case operation i apiKey of
               Fulfilled v \<Rightarrow> (Inr v, s2)
             | Rejected error \<Rightarrow>
                (case isRateLimit error of
                   Inl t \<Rightarrow> (Inl (Raised t), s2)
                 | Inr True \<Rightarrow>
                     retry_loop API_KEY operation random maxRetries (i + 1) error
                       (s2\<lparr>console := console s2 @ [RateLimitHit (i + 1) maxRetries],
                           effects := effects s2 @
                             [SetTimeout (to_double (200 + to_double (random i * 300)))]\<rparr>)
                 | Inr False \<Rightarrow> (Inl (Thrown error), s2))))
      else (Inl (Thrown lastError), s))"
  by pat_completeness auto
termination
  by (relation "measure (\<lambda>(API_KEY, operation, random, maxRetries, i, lastError, s). maxRetries - i)")
     auto

declare retry_loop.simps [simp del]

text \<open>How the promise returned by \<^verbatim>\<open>operation("")\<close> settles the promise of the caller.\<close>

fun settle :: "'a attempt \<Rightarrow> rejection + 'a" where
  "settle (Fulfilled v) = Inr v"
| "settle (Rejected error) = Inl (Thrown error)"

text \<open>\<^verbatim>\<open>executeWithRetry\<close>; \<^verbatim>\<open>lastError\<close> starts as \<^verbatim>\<open>undefined\<close>.\<close>

definition executeWithRetry ::
  "string option \<Rightarrow> (nat \<Rightarrow> string \<Rightarrow> 'a attempt) \<Rightarrow> (nat \<Rightarrow> real) \<Rightarrow> state \<Rightarrow>
   (rejection + 'a) \<times> state" where
  "executeWithRetry API_KEY operation random s =
     (let ks = retry_keys API_KEY in
      if length ks = 0 then (settle (operation 0 []), s\<lparr>effects := effects s @ [Invoke []]\<rparr>)
      else
        (let maxRetries = min (length ks) 5
         in retry_loop API_KEY operation random maxRetries 0 (Plain Undefined) s))"

text \<open>
  The same loop among the other calls of the application. \<^verbatim>\<open>keyIndex\<close> is a variable of the
  module, and the loop gives way to other calls where it awaits: the promise of the operation
  in iteration \<open>i\<close>, numbered \<open>2 * i\<close>, and the delay after it, numbered \<open>2 * i + 1\<close>. Between
  two awaits it runs without interruption. What the other calls do to this call is to run
  \<^verbatim>\<open>getNextApiKey\<close>: \<open>others p\<close> is the number of credentials issued to them during await \<open>p\<close>.
  Each issuance moves the cursor and writes its line to the console; an issuance that raises
  changes nothing. The effects followed are those of this call only.
\<close>

fun others_issue :: "string option \<Rightarrow> nat \<Rightarrow> state \<Rightarrow> state" where
  "others_issue K 0 s = s"
| "others_issue K (Suc m) s =
     (case getNextApiKey K s of
        Inl t \<Rightarrow> others_issue K m s
      | Inr (key, s1) \<Rightarrow> others_issue K m s1)"

text \<open>The \<^verbatim>\<open>for\<close> loop of \<^verbatim>\<open>executeWithRetry\<close>, from iteration \<open>i\<close> on, among the other calls.\<close>

function retry_loop_among ::
  "string option \<Rightarrow> (nat \<Rightarrow> string \<Rightarrow> 'a attempt) \<Rightarrow> (nat \<Rightarrow> real) \<Rightarrow> (nat \<Rightarrow> nat) \<Rightarrow> nat \<Rightarrow>
   nat \<Rightarrow> thrown \<Rightarrow> state \<Rightarrow> (rejection + 'a) \<times> state" where
  "retry_loop_among API_KEY operation random others maxRetries i lastError s =
     (if i < maxRetries then
        (case getNextApiKey API_KEY s of
           Inl t \<Rightarrow> (Inl (Raised t), s)
         | Inr (apiKey, s1) \<Rightarrow>
            (let s2 = others_issue API_KEY (others (2 * i))
                        (s1\<lparr>effects := effects s1 @ [Invoke apiKey]\<rparr>) in
             case operation i apiKey of
               Fulfilled v \<Rightarrow> (Inr v, s2)
             | Rejected error \<Rightarrow>
                (case isRateLimit error of
                   Inl t \<Rightarrow> (Inl (Raised t), s2)
                 | Inr True \<Rightarrow>
                     retry_loop_among API_KEY operation random others maxRetries (i + 1) error
                       (others_issue API_KEY (others (2 * i + 1))
                          (s2\<lparr>console := console s2 @ [RateLimitHit (i + 1) maxRetries],
                              effects := effects s2 @
                                [SetTimeout (to_double (200 + to_double (random i * 300)))]\<rparr>))
                 | Inr False \<Rightarrow> (Inl (Thrown error), s2))))
      else (Inl (Thrown lastError), s))"
  by pat_completeness auto
termination
  by (relation "measure (\<lambda>(API_KEY, operation, random, others, maxRetries, i, lastError, s).
        maxRetries - i)") auto

declare retry_loop_among.simps [simp del]

text \<open>
  \<^verbatim>\<open>executeWithRetry\<close> among the other calls. With an empty pool the promise of
  \<^verbatim>\<open>operation("")\<close> is returned, and awaited by the caller, as await \<open>0\<close>.
\<close>

definition executeWithRetry_among ::
  "string option \<Rightarrow> (nat \<Rightarrow> string \<Rightarrow> 'a attempt) \<Rightarrow> (nat \<Rightarrow> real) \<Rightarrow> (nat \<Rightarrow> nat) \<Rightarrow> state \<Rightarrow>
   (rejection + 'a) \<times> state" where
  "executeWithRetry_among API_KEY operation random others s =
     (let ks = retry_keys API_KEY in
      if length ks = 0 then
        (settle (operation 0 []),
         others_issue API_KEY (others 0) (s\<lparr>effects := effects s @ [Invoke []]\<rparr>))
      else
        (let maxRetries = min (length ks) 5
         in retry_loop_among API_KEY operation random others maxRetries 0 (Plain Undefined) s))"

section \<open>Vocabulary of the statements\<close>

text \<open>The state after one issuance from a non-empty pool and the invocation that follows.\<close>

definition issued :: "string option \<Rightarrow> state \<Rightarrow> state" where
  "issued K s = s\<lparr>console := console s @
            [UsingKey (keyIndex s + 1) (length (keys K)) (maskedKey (keys K ! keyIndex s))],
         keyIndex := (keyIndex s + 1) mod length (keys K),
         effects := effects s @ [Invoke (keys K ! keyIndex s)]\<rparr>"

text \<open>The credential \<open>j\<close> positions after the cursor \<open>c\<close>, going round the pool.\<close>

definition rotation :: "string option \<Rightarrow> nat \<Rightarrow> nat \<Rightarrow> string" where
  "rotation K c j = keys K ! ((c + j) mod length (keys K))"

text \<open>The delay requested in iteration \<open>i\<close>, in milliseconds.\<close>

definition backoff :: "(nat \<Rightarrow> real) \<Rightarrow> nat \<Rightarrow> real" where
  "backoff rnd i = to_double (200 + to_double (rnd i * 300))"

text \<open>
  What \<open>k\<close> rate-limited iterations in a row do, starting in iteration \<open>i\<close> with the cursor
  at \<open>c\<close>: each invokes the operation with the next credential and then sleeps.
\<close>

definition rounds :: "string option \<Rightarrow> nat \<Rightarrow> (nat \<Rightarrow> real) \<Rightarrow> nat \<Rightarrow> nat \<Rightarrow> effect list" where
  "rounds K c rnd i k =
     concat (map (\<lambda>j. [Invoke (rotation K c j), SetTimeout (backoff rnd (i + j))]) [0..<k])"

text \<open>The credentials handed to the operation, and the delays requested, in order.\<close>

fun invocations :: "effect list \<Rightarrow> string list" where
  "invocations [] = []"
| "invocations (Invoke k # es) = k # invocations es"
| "invocations (SetTimeout d # es) = invocations es"

fun timeouts :: "effect list \<Rightarrow> real list" where
  "timeouts [] = []"
| "timeouts (Invoke k # es) = timeouts es"
| "timeouts (SetTimeout d # es) = d # timeouts es"

text \<open>The effects of a call that leads from \<open>s\<close> to \<open>s'\<close>.\<close>

definition performed :: "state \<Rightarrow> state \<Rightarrow> effect list" where
  "performed s s' = drop (length (effects s)) (effects s')"

text \<open>Calling \<^verbatim>\<open>getNextApiKey\<close> \<open>m\<close> times in sequence, collecting what it returns.\<close>

fun issue :: "string option \<Rightarrow> nat \<Rightarrow> state \<Rightarrow> runtime_error + (string list \<times> state)" where
  "issue K 0 s = Inr ([], s)"
| "issue K (Suc m) s =
     (case getNextApiKey K s of
        Inl t \<Rightarrow> Inl t
      | Inr (key, s1) \<Rightarrow>
         (case issue K m s1 of
            Inl t \<Rightarrow> Inl t
          | Inr (ks, s2) \<Rightarrow> Inr (key # ks, s2)))"

text \<open>The configuration string made of the given entries, with a comma between neighbours.\<close>

fun join_comma :: "string list \<Rightarrow> string" where
  "join_comma [] = []"
| "join_comma [p] = p"
| "join_comma (p # q # ps) = p @ CHR '','' # join_comma (q # ps)"

text \<open>
  The classification as the specification words it. A message indicates resource exhaustion
  or an exceeded quota when it speaks of either, in any of the usual spellings.
\<close>

definition spec_quota_message :: "string \<Rightarrow> bool" where
  "spec_quota_message m \<longleftrightarrow>
     includes_str m ''exhaust'' \<or> includes_str m ''EXHAUST'' \<or>
     includes_str m ''quota'' \<or> includes_str m ''Quota'' \<or> includes_str m ''QUOTA''"

text \<open>
  A failure is a rate limit for the specification when its status is the HTTP status 429 or
  its message indicates resource exhaustion or an exceeded quota.
\<close>

definition spec_rate_limited :: "thrown \<Rightarrow> bool" where
  "spec_rate_limited error \<longleftrightarrow>
     status error = Inr (Num 429) \<or>
     (case message error of Inr (Str m) \<Rightarrow> spec_quota_message m | _ \<Rightarrow> False)"

text \<open>An attempt is rate-limited when it is rejected with a value that the loop classifies so.\<close>

definition rate_limited :: "'a attempt \<Rightarrow> bool" where
  "rate_limited a = (case a of Fulfilled v \<Rightarrow> False | Rejected e \<Rightarrow> isRateLimit e = Inr True)"

text \<open>
  The effects of a call that invokes the operation with the given credentials, in iterations
  \<open>i\<close>, \<open>i + 1\<close>, ..., and requests a delay right after each rate-limited attempt and at no
  other point.
\<close>

fun paced :: "(nat \<Rightarrow> string \<Rightarrow> 'a attempt) \<Rightarrow> (nat \<Rightarrow> real) \<Rightarrow> nat \<Rightarrow> string list \<Rightarrow> effect list" where
  "paced operation random i [] = []"
| "paced operation random i (key # rest) =
     Invoke key #
     (if rate_limited (operation i key) then [SetTimeout (backoff random i)] else []) @
     paced operation random (i + 1) rest"

text \<open>The iterations, among those that receive the given credentials, whose attempt is rate-limited.\<close>

fun rate_limited_attempts :: "(nat \<Rightarrow> string \<Rightarrow> 'a attempt) \<Rightarrow> nat \<Rightarrow> string list \<Rightarrow> nat list" where
  "rate_limited_attempts operation i [] = []"
| "rate_limited_attempts operation i (key # rest) =
     (if rate_limited (operation i key) then [i] else []) @
     rate_limited_attempts operation (i + 1) rest"

section \<open>Scenarios\<close>

text \<open>Errors and operations on which the statements below are run.\<close>

definition rate_limit_error :: "nat \<Rightarrow> thrown" where
  "rate_limit_error i = Err i (Str ''got status: 429 Too Many Requests'') Undefined"


definition always_rate_limited :: "nat \<Rightarrow> string \<Rightarrow> unit attempt" where
  "always_rate_limited i apiKey = Rejected (rate_limit_error i)"


definition succeeds_second :: "nat \<Rightarrow> string \<Rightarrow> bool attempt" where
  "succeeds_second i apiKey = (if i = 0 then Rejected (rate_limit_error 0) else Fulfilled True)"



definition needs_key :: "nat \<Rightarrow> string \<Rightarrow> bool attempt" where
  "needs_key i apiKey =
     (if apiKey = [] then Rejected (Err 3 (Str ''API key not valid'') (Num 400))
      else Fulfilled True)"

definition echo_key :: "nat \<Rightarrow> string \<Rightarrow> string attempt" where
  "echo_key i apiKey = Fulfilled apiKey"

definition half :: "nat \<Rightarrow> real" where
  "half i = 1 / 2"

text \<open>No other call is issued a credential while this one awaits.\<close>

definition nobody :: "nat \<Rightarrow> nat" where
  "nobody p = 0"

text \<open>One other call is issued a credential while the first attempt is awaited.\<close>

definition one_rival :: "nat \<Rightarrow> nat" where
  "one_rival p = (if p = 0 then 1 else 0)"

section \<open>Facts about numbers\<close>

lemma round_half_even_le: "t \<le> of_int M \<Longrightarrow> round_half_even t \<le> M"
  unfolding round_half_even_def Let_def by (auto simp add: floor_le_iff le_floor_iff; linarith)

lemma round_half_even_ge: "of_int M \<le> t \<Longrightarrow> M \<le> round_half_even t"
  unfolding round_half_even_def Let_def by (auto simp add: le_floor_iff; linarith)

lemma round_half_even_below_half: "t < of_int M - 1 / 2 \<Longrightarrow> round_half_even t \<le> M - 1"
  unfolding round_half_even_def Let_def by (auto simp add: le_floor_iff; linarith)

lemma round_half_even_of_int: "round_half_even (of_int M) = M"
  by (simp add: round_half_even_def)


lemma ulp_pos: "0 < ulp x"
  by (simp add: ulp_def)

lemma ulp_binade:
  assumes "2 powi e \<le> x" and "x < 2 powi (e + 1)" and "- 1022 \<le> e"
  shows "ulp x = 2 powi (e - 52)"
proof -
  have pos: "0 < x" using assms(1) zero_less_power_int[of "2 :: real" e] by linarith
  have "2 powr real_of_int e \<le> x" "x < 2 powr (real_of_int e + 1)"
    using assms(1,2) powr_real_of_int'[of "2 :: real" e] powr_real_of_int'[of "2 :: real" "e + 1"]
    by simp_all
  then have "\<lfloor>log 2 x\<rfloor> = e"
    using floor_log_eq_powr_iff[of x 2 e] pos by simp
  then show ?thesis using pos assms(3) by (simp add: ulp_def)
qed

lemma to_double_binade:
  assumes "2 powi e \<le> x" and "x < 2 powi (e + 1)" and "- 1022 \<le> e"
  shows "to_double x = of_int (round_half_even (x / 2 powi (e - 52))) * 2 powi (e - 52)"
proof -
  have "0 < x" using assms(1) zero_less_power_int[of "2 :: real" e] by linarith
  then show ?thesis by (simp add: to_double_def ulp_binade[OF assms])
qed

lemma to_double_256_512:
  assumes "256 \<le> x" and "x < 512"
  shows "to_double x = of_int (round_half_even (x * 2 ^ 44)) / 2 ^ 44"
  using to_double_binade[of 8 x] assms by (simp add: power_int_minus field_simps)

lemma to_double_128_256:
  assumes "128 \<le> x" and "x < 256"
  shows "to_double x = of_int (round_half_even (x * 2 ^ 45)) / 2 ^ 45"
  using to_double_binade[of 7 x] assms by (simp add: power_int_minus field_simps)

lemma to_double_half_one:
  assumes "1 / 2 \<le> x" and "x < 1"
  shows "to_double x = of_int (round_half_even (x * 2 ^ 53)) / 2 ^ 53"
  using to_double_binade[of "- 1" x] assms by (simp add: power_int_minus field_simps)

lemma to_double_nonneg: "0 \<le> x \<Longrightarrow> 0 \<le> to_double x"
proof -
  assume "0 \<le> x"
  then have "of_int 0 \<le> x / ulp x" using ulp_pos[of x] by simp
  then have "0 \<le> round_half_even (x / ulp x)" by (rule round_half_even_ge)
  then show ?thesis using ulp_pos[of x] by (simp add: to_double_def)
qed

lemma to_double_below_256:
  assumes "0 \<le> x" and "x < 256"
  shows "to_double x \<le> 256"
proof (cases "x = 0")
  case True
  then show ?thesis by (simp add: to_double_def)
next
  case False
  with assms(1) have pos: "0 < x" by simp
  define E where "E = max \<lfloor>log 2 \<bar>x\<bar>\<rfloor> (- 1022)"
  have "log 2 x < 8"
    using pos assms(2) less_powr_iff[of 2 x 8] by simp
  then have "\<lfloor>log 2 x\<rfloor> < 8" by (simp add: floor_less_iff)
  then have E: "E \<le> 7" using pos by (simp add: E_def)
  have u: "ulp x = 2 powi (E - 52)" by (simp add: ulp_def E_def)
  have split: "(256 :: real) = of_int (2 ^ nat (60 - E)) * 2 powi (E - 52)"
  proof -
    have "(2 :: real) powi (60 - E) * 2 powi (E - 52) = 2 powi ((60 - E) + (E - 52))"
      by (subst power_int_add) simp_all
    also have "\<dots> = 256" by simp
    finally have "(256 :: real) = 2 powi (60 - E) * 2 powi (E - 52)" by simp
    moreover have "(2 :: real) powi (60 - E) = of_int (2 ^ nat (60 - E))"
      using E by (simp add: power_int_def)
    ultimately show ?thesis by simp
  qed
  have "x / ulp x \<le> of_int (2 ^ nat (60 - E))"
  proof -
    have "x \<le> of_int (2 ^ nat (60 - E)) * ulp x" using assms(2) split u by simp
    then show ?thesis using ulp_pos[of x] by (simp add: pos_divide_le_eq)
  qed
  then have "round_half_even (x / ulp x) \<le> 2 ^ nat (60 - E)" by (rule round_half_even_le)
  then have le: "of_int (round_half_even (x / ulp x)) * ulp x \<le> of_int (2 ^ nat (60 - E)) * ulp x"
    using ulp_pos[of x] by (intro mult_right_mono) simp_all
  have "to_double x = of_int (round_half_even (x / ulp x)) * ulp x"
    using False by (simp add: to_double_def)
  also note le
  also have "of_int (2 ^ nat (60 - E)) * ulp x = 256"
    unfolding u using split by simp
  finally show ?thesis .
qed

lemma double_below_one:
  assumes "0 \<le> r" and "r < 1" and "to_double r = r"
  shows "r \<le> 1 - 1 / 2 ^ 53"
proof (cases "r < 1 / 2")
  case True
  then show ?thesis by simp
next
  case False
  then have half: "1 / 2 \<le> r" by simp
  define P :: int where "P = 2 ^ 53"
  define N where "N = round_half_even (r * of_int P)"
  have P: "(2 :: real) ^ 53 = of_int P" by (simp add: P_def)
  have "to_double r = of_int N / of_int P"
    using to_double_half_one[OF half assms(2)] unfolding P N_def .
  then have r: "r = of_int N / of_int P" using assms(3) by simp
  have Ppos: "0 < (of_int P :: real)" unfolding P[symmetric] by simp
  have "of_int N < (of_int P :: real)" using assms(2) Ppos unfolding r by (simp add: field_simps)
  then have "N < P" by (simp only: of_int_less_iff)
  then have "N \<le> P - 1" by simp
  then have "(of_int N :: real) \<le> of_int (P - 1)" by (simp only: of_int_le_iff)
  then have "(of_int N :: real) \<le> of_int P - 1" by simp
  then have "of_int N / of_int P \<le> (of_int P - 1) / (of_int P :: real)"
    using Ppos by (simp add: divide_right_mono)
  also have "\<dots> = 1 - 1 / of_int P" using Ppos by (simp add: field_simps)
  finally show ?thesis unfolding r P .
qed

lemma product_rounds_below_300:
  assumes "0 \<le> r" and "r \<le> 1 - 1 / 2 ^ 53"
  shows "0 \<le> to_double (r * 300) \<and> to_double (r * 300) \<le> 300 - 1 / 2 ^ 44"
proof (intro conjI)
  show "0 \<le> to_double (r * 300)" using assms(1) by (intro to_double_nonneg) simp
  show "to_double (r * 300) \<le> 300 - 1 / 2 ^ 44"
  proof (cases "r * 300 < 256")
    case True
    then have "to_double (r * 300) \<le> 256" using assms(1) by (intro to_double_below_256) simp_all
    then show ?thesis by simp
  next
    case False
    then have lo: "256 \<le> r * 300" by simp
    have hi: "r * 300 < 512" using assms(2) by simp
    define S :: int where "S = 2 ^ 44"
    have S: "(2 :: real) ^ 44 = of_int S" by (simp add: S_def)
    have Spos: "0 < (of_int S :: real)" unfolding S[symmetric] by simp
    have ratio: "(of_int S :: real) / 2 ^ 53 = 1 / 512" unfolding S[symmetric] by simp
    have "r * 300 * of_int S \<le> (1 - 1 / 2 ^ 53) * 300 * of_int S"
      using assms(2) Spos by (intro mult_right_mono) simp_all
    also have "\<dots> = 300 * of_int S - 300 * (of_int S / 2 ^ 53)" by (simp add: algebra_simps)
    also have "\<dots> = of_int (300 * S) - 300 / 512" unfolding ratio by simp
    also have "\<dots> < of_int (300 * S) - 1 / 2" by simp
    finally have "round_half_even (r * 300 * of_int S) \<le> 300 * S - 1"
      by (rule round_half_even_below_half)
    then have "(of_int (round_half_even (r * 300 * of_int S)) :: real) \<le> of_int (300 * S - 1)"
      by (simp only: of_int_le_iff)
    then have "of_int (round_half_even (r * 300 * of_int S)) / of_int S
                 \<le> (of_int (300 * S - 1) :: real) / of_int S"
      using Spos by (simp add: divide_right_mono)
    also have "\<dots> = 300 - 1 / of_int S" using Spos by (simp add: field_simps)
    finally show ?thesis unfolding to_double_256_512[OF lo hi] S .
  qed
qed

lemma sum_rounds_in_range:
  assumes "0 \<le> y" and "y \<le> 300 - 1 / 2 ^ 44"
  shows "200 \<le> to_double (200 + y) \<and> to_double (200 + y) < 500"
proof (cases "200 + y < 256")
  case True
  have lo: "128 \<le> 200 + y" using assms(1) by simp
  define S :: int where "S = 2 ^ 45"
  have S: "(2 :: real) ^ 45 = of_int S" by (simp add: S_def)
  have Spos: "0 < (of_int S :: real)" unfolding S[symmetric] by simp
  have "of_int (200 * S) \<le> (200 + y) * of_int S"
    using assms(1) Spos by (simp add: algebra_simps)
  then have "200 * S \<le> round_half_even ((200 + y) * of_int S)" by (rule round_half_even_ge)
  then have "(of_int (200 * S) :: real) \<le> of_int (round_half_even ((200 + y) * of_int S))"
    by (simp only: of_int_le_iff)
  then have "200 * of_int S \<le> (of_int (round_half_even ((200 + y) * of_int S)) :: real)"
    by simp
  then have "200 \<le> of_int (round_half_even ((200 + y) * of_int S)) / (of_int S :: real)"
    using Spos by (simp only: pos_le_divide_eq)
  then have "200 \<le> to_double (200 + y)"
    unfolding to_double_128_256[OF lo True] S .
  moreover have "to_double (200 + y) \<le> 256"
    using assms(1) True by (intro to_double_below_256) simp_all
  ultimately show ?thesis by simp
next
  case False
  then have lo: "256 \<le> 200 + y" by simp
  have hi: "200 + y < 512" using assms(2) by simp
  define S :: int where "S = 2 ^ 44"
  have S: "(2 :: real) ^ 44 = of_int S" by (simp add: S_def)
  have Spos: "0 < (of_int S :: real)" unfolding S[symmetric] by simp
  have "of_int (200 * S) \<le> (200 + y) * of_int S"
    using assms(1) Spos by (simp add: algebra_simps)
  then have "200 * S \<le> round_half_even ((200 + y) * of_int S)" by (rule round_half_even_ge)
  then have "(of_int (200 * S) :: real) \<le> of_int (round_half_even ((200 + y) * of_int S))"
    by (simp only: of_int_le_iff)
  then have "200 * of_int S \<le> (of_int (round_half_even ((200 + y) * of_int S)) :: real)"
    by simp
  then have "200 \<le> of_int (round_half_even ((200 + y) * of_int S)) / (of_int S :: real)"
    using Spos by (simp only: pos_le_divide_eq)
  then have ge: "200 \<le> to_double (200 + y)"
    unfolding to_double_256_512[OF lo hi] S .
  have "(200 + y) * of_int S \<le> (500 - 1 / of_int S) * of_int S"
    using assms(2) Spos unfolding S by (intro mult_right_mono) simp_all
  also have "\<dots> = of_int (500 * S - 1)" using Spos by (simp add: algebra_simps)
  finally have "round_half_even ((200 + y) * of_int S) \<le> 500 * S - 1"
    by (rule round_half_even_le)
  then have "(of_int (round_half_even ((200 + y) * of_int S)) :: real) \<le> of_int (500 * S - 1)"
    by (simp only: of_int_le_iff)
  then have "of_int (round_half_even ((200 + y) * of_int S)) / of_int S
               \<le> (of_int (500 * S - 1) :: real) / of_int S"
    using Spos by (simp add: divide_right_mono)
  also have "\<dots> = 500 - 1 / of_int S" using Spos by (simp add: field_simps)
  also have "\<dots> < 500" using Spos by simp
  finally have "to_double (200 + y) < 500" unfolding to_double_256_512[OF lo hi] S .
  with ge show ?thesis by simp
qed

lemma delay_in_range:
  assumes "0 \<le> r" and "r < 1" and "to_double r = r"
  shows "200 \<le> to_double (200 + to_double (r * 300)) \<and>
         to_double (200 + to_double (r * 300)) < 500"
  using sum_rounds_in_range product_rounds_below_300[OF assms(1) double_below_one[OF assms]]
  by blast

lemma to_double_exact:
  assumes "2 powi e \<le> x" and "x < 2 powi (e + 1)" and "- 1022 \<le> e"
    and "x / 2 powi (e - 52) = of_int N"
  shows "to_double x = x"
proof -
  have "to_double x = of_int N * 2 powi (e - 52)"
    unfolding to_double_binade[OF assms(1,2,3)] assms(4) round_half_even_of_int ..
  also have "\<dots> = x" using assms(4) by (simp add: field_simps)
  finally show ?thesis .
qed

lemma to_double_half: "to_double (1 / 2) = 1 / 2"
  by (rule to_double_exact[where e = "- 1" and N = "2 ^ 52"]) (simp_all add: power_int_minus)

lemma to_double_150: "to_double 150 = 150"
  by (rule to_double_exact[where e = 7 and N = "150 * 2 ^ 45"]) (simp_all add: power_int_minus)

lemma to_double_350: "to_double 350 = 350"
  by (rule to_double_exact[where e = 8 and N = "350 * 2 ^ 44"]) (simp_all add: power_int_minus)

section \<open>Facts about the key pool\<close>

lemma keys_eq: "keys K = map trim (retry_keys K)"
  by (simp add: keys_def retry_keys_def filter_map comp_def)

lemma length_retry_keys: "length (retry_keys K) = length (keys K)"
  by (simp add: keys_eq)

lemma getNextApiKey_empty:
  "keys K = [] \<Longrightarrow> getNextApiKey K s = Inr ([], s\<lparr>console := console s @ [NoKeysFound]\<rparr>)"
  by (simp add: getNextApiKey_def)

lemma getNextApiKey_in_range:
  "keyIndex s < length (keys K) \<Longrightarrow>
   getNextApiKey K s =
     Inr (keys K ! keyIndex s,
       s\<lparr>console := console s @
            [UsingKey (keyIndex s + 1) (length (keys K)) (maskedKey (keys K ! keyIndex s))],
         keyIndex := (keyIndex s + 1) mod length (keys K)\<rparr>)"
  by (auto simp add: getNextApiKey_def Let_def)

lemma getNextApiKey_out_of_range:
  "keys K \<noteq> [] \<Longrightarrow> \<not> keyIndex s < length (keys K) \<Longrightarrow> getNextApiKey K s = Inl TypeError"
  by (simp add: getNextApiKey_def)

lemma getNextApiKey_step:
  assumes "keyIndex s < length (keys K)"
  shows "\<exists>s1. getNextApiKey K s = Inr (keys K ! keyIndex s, s1) \<and>
              keyIndex s1 = Suc (keyIndex s) mod length (keys K) \<and> effects s1 = effects s"
  by (simp add: getNextApiKey_in_range[OF assms])

lemma split_comma_not_Nil: "split_comma raw \<noteq> []"
  by (induction raw) (auto split: list.splits)

lemma split_comma_no_comma: "p \<in> set (split_comma raw) \<Longrightarrow> CHR '','' \<notin> set p"
  by (induction raw arbitrary: p) (auto split: list.splits if_splits)

lemma join_split_comma: "join_comma (split_comma raw) = raw"
proof (induction raw)
  case Nil
  show ?case by simp
next
  case (Cons c cs)
  obtain p ps where sp: "split_comma cs = p # ps"
    using split_comma_not_Nil[of cs] by (cases "split_comma cs") auto
  show ?case
  proof (cases "c = CHR '',''")
    case True
    with Cons sp show ?thesis by simp
  next
    case False
    with Cons sp show ?thesis by (cases ps) simp_all
  qed
qed

lemma split_comma_single: "CHR '','' \<notin> set p \<Longrightarrow> split_comma p = [p]"
  by (induction p) auto

lemma split_comma_append:
  "CHR '','' \<notin> set p \<Longrightarrow> split_comma (p @ CHR '','' # rest) = p # split_comma rest"
  by (induction p) auto

lemma split_join_comma:
  "entries \<noteq> [] \<Longrightarrow> \<forall>p \<in> set entries. CHR '','' \<notin> set p \<Longrightarrow>
   split_comma (join_comma entries) = entries"
proof (induction entries rule: join_comma.induct)
  case 1
  then show ?case by simp
next
  case (2 p)
  then show ?case by (simp add: split_comma_single)
next
  case (3 p q ps)
  then show ?case by (simp add: split_comma_append)
qed

section \<open>Facts about rotation\<close>

lemma rotation_0: "c < length (keys K) \<Longrightarrow> rotation K c 0 = keys K ! c"
  by (simp add: rotation_def)

lemma rotation_shift: "rotation K (Suc c mod length (keys K)) j = rotation K c (Suc j)"
  by (simp add: rotation_def mod_Suc_eq mod_add_left_eq)

lemma rotation_in_pool: "keys K \<noteq> [] \<Longrightarrow> rotation K c j \<in> set (keys K)"
  by (simp add: rotation_def)

lemma rotation_from_start:
  assumes "keys K \<noteq> []"
  shows "map (rotation K 0) [0..<length (keys K)] = keys K"
  by (rule nth_equalityI) (simp_all add: rotation_def)





lemma map_upt_front: "map f [0..<Suc m] = f 0 # map (\<lambda>j. f (Suc j)) [0..<m]"
  by (induction m) simp_all

lemma issue_rotation:
  assumes "keyIndex s < length (keys K)"
  shows "\<exists>s'. issue K m s = Inr (map (rotation K (keyIndex s)) [0..<m], s') \<and>
              keyIndex s' = (keyIndex s + m) mod length (keys K)"
  using assms
proof (induction m arbitrary: s)
  case 0
  then show ?case by simp
next
  case (Suc m)
  let ?n = "length (keys K)"
  have n: "0 < ?n" using Suc.prems by (cases "keys K") simp_all
  obtain s1 where step: "getNextApiKey K s = Inr (keys K ! keyIndex s, s1)"
    and idx1: "keyIndex s1 = Suc (keyIndex s) mod ?n"
    using getNextApiKey_step[OF Suc.prems] by blast
  have in1: "keyIndex s1 < ?n" using n idx1 by simp
  obtain s' where rest: "issue K m s1 = Inr (map (rotation K (keyIndex s1)) [0..<m], s')"
    and idx: "keyIndex s' = (keyIndex s1 + m) mod ?n"
    using Suc.IH[OF in1] by blast
  have tail: "map (rotation K (keyIndex s1)) [0..<m] =
                map (\<lambda>j. rotation K (keyIndex s) (Suc j)) [0..<m]"
    unfolding idx1 rotation_shift ..
  have "issue K (Suc m) s =
          Inr (keys K ! keyIndex s # map (rotation K (keyIndex s1)) [0..<m], s')"
    by (simp add: step rest)
  also have "keys K ! keyIndex s # map (rotation K (keyIndex s1)) [0..<m] =
               map (rotation K (keyIndex s)) [0..<Suc m]"
    unfolding tail map_upt_front[of "rotation K (keyIndex s)" m] rotation_0[OF Suc.prems] ..
  finally have "issue K (Suc m) s = Inr (map (rotation K (keyIndex s)) [0..<Suc m], s')" .
  moreover have "keyIndex s' = (keyIndex s + Suc m) mod ?n"
    unfolding idx idx1 by (simp add: mod_Suc_eq mod_add_left_eq)
  ultimately show ?case by blast
qed

lemma issue_empty:
  assumes "keys K = []"
  shows "\<exists>s'. issue K m s = Inr (replicate m [], s') \<and> keyIndex s' = keyIndex s \<and>
              effects s' = effects s"
proof (induction m arbitrary: s)
  case 0
  show ?case by simp
next
  case (Suc m)
  let ?s1 = "s\<lparr>console := console s @ [NoKeysFound]\<rparr>"
  obtain s' where "issue K m ?s1 = Inr (replicate m [], s')"
    and "keyIndex s' = keyIndex ?s1" and "effects s' = effects ?s1"
    using Suc.IH[of ?s1] by blast
  then show ?case
    by (simp add: getNextApiKey_empty[OF assms])
qed

section \<open>Facts about effects\<close>

lemma invocations_append: "invocations (xs @ ys) = invocations xs @ invocations ys"
  by (induction xs rule: invocations.induct) simp_all


lemma rounds_0: "rounds K c rnd i 0 = []"
  by (simp add: rounds_def)

lemma rounds_Suc:
  "rounds K c rnd i (Suc k) =
     rounds K c rnd i k @ [Invoke (rotation K c k), SetTimeout (backoff rnd (i + k))]"
  by (simp add: rounds_def)

lemma invocations_rounds: "invocations (rounds K c rnd i k) = map (rotation K c) [0..<k]"
  by (induction k) (simp_all add: rounds_0 rounds_Suc invocations_append)


lemma rounds_front:
  "rounds K c rnd i (Suc k) =
     [Invoke (rotation K c 0), SetTimeout (backoff rnd i)] @
     rounds K (Suc c mod length (keys K)) rnd (Suc i) k"
  by (induction k) (simp_all add: rounds_0 rounds_Suc rotation_shift)

lemma performed_append: "effects s' = effects s @ es \<Longrightarrow> performed s s' = es"
  by (simp add: performed_def)

lemma backoff_range:
  "0 \<le> rnd i \<Longrightarrow> rnd i < 1 \<Longrightarrow> to_double (rnd i) = rnd i \<Longrightarrow>
   200 \<le> backoff rnd i \<and> backoff rnd i < 500"
  unfolding backoff_def by (rule delay_in_range)

lemma sum_list_bounded:
  fixes ds :: "real list"
  assumes "\<forall>d \<in> set ds. d \<le> b"
  shows "sum_list ds \<le> real (length ds) * b"
  using assms by (induction ds) (auto simp add: algebra_simps)

section \<open>One iteration of the loop\<close>

lemma loop_done: "\<not> i < m \<Longrightarrow> retry_loop K op rnd m i le s = (Inl (Thrown le), s)"
  by (subst retry_loop.simps) simp

lemma loop_fulfilled:
  "i < m \<Longrightarrow> keyIndex s < length (keys K) \<Longrightarrow> op i (keys K ! keyIndex s) = Fulfilled v \<Longrightarrow>
   retry_loop K op rnd m i le s = (Inr v, issued K s)"
  by (subst retry_loop.simps) (simp add: getNextApiKey_in_range issued_def)

lemma loop_other:
  "i < m \<Longrightarrow> keyIndex s < length (keys K) \<Longrightarrow> op i (keys K ! keyIndex s) = Rejected e \<Longrightarrow>
   isRateLimit e = Inr False \<Longrightarrow>
   retry_loop K op rnd m i le s = (Inl (Thrown e), issued K s)"
  by (subst retry_loop.simps) (simp add: getNextApiKey_in_range issued_def)

lemma loop_raised:
  "i < m \<Longrightarrow> keyIndex s < length (keys K) \<Longrightarrow> op i (keys K ! keyIndex s) = Rejected e \<Longrightarrow>
   isRateLimit e = Inl t \<Longrightarrow>
   retry_loop K op rnd m i le s = (Inl (Raised t), issued K s)"
  by (subst retry_loop.simps) (simp add: getNextApiKey_in_range issued_def)

lemma loop_rate_limit:
  "i < m \<Longrightarrow> keyIndex s < length (keys K) \<Longrightarrow> op i (keys K ! keyIndex s) = Rejected e \<Longrightarrow>
   isRateLimit e = Inr True \<Longrightarrow>
   retry_loop K op rnd m i le s =
     retry_loop K op rnd m (i + 1) e
       ((issued K s)\<lparr>console := console (issued K s) @ [RateLimitHit (i + 1) m],
                     effects := effects (issued K s) @ [SetTimeout (backoff rnd i)]\<rparr>)"
  by (subst retry_loop.simps) (simp add: getNextApiKey_in_range issued_def backoff_def)

lemma loop_rate_limit':
  "i < m \<Longrightarrow> keyIndex s < length (keys K) \<Longrightarrow> op i (keys K ! keyIndex s) = Rejected e \<Longrightarrow>
   isRateLimit e = Inr True \<Longrightarrow>
   \<exists>s'. retry_loop K op rnd m i le s = retry_loop K op rnd m (i + 1) e s' \<and>
        keyIndex s' = (keyIndex s + 1) mod length (keys K) \<and>
        effects s' = effects s @ [Invoke (keys K ! keyIndex s), SetTimeout (backoff rnd i)]"
  by (rule exI[where x = "(issued K s)\<lparr>console := console (issued K s) @ [RateLimitHit (i + 1) m],
                     effects := effects (issued K s) @ [SetTimeout (backoff rnd i)]\<rparr>"])
     (simp add: loop_rate_limit issued_def backoff_def)

section \<open>Runs of the loop\<close>

lemma loop_rate_limited_run:
  assumes "keyIndex s < length (keys K)" and "i + k \<le> m"
    and "\<And>j. j < k \<Longrightarrow> op (i + j) (rotation K (keyIndex s) j) = Rejected (err j) \<and>
                       isRateLimit (err j) = Inr True"
  shows "\<exists>s'. retry_loop K op rnd m i le s =
                retry_loop K op rnd m (i + k) (if k = 0 then le else err (k - 1)) s' \<and>
              keyIndex s' = (keyIndex s + k) mod length (keys K) \<and>
              effects s' = effects s @ rounds K (keyIndex s) rnd i k"
  using assms(2,3)
proof (induction k)
  case 0
  with assms(1) show ?case by (intro exI[where x = s]) (simp add: rounds_0)
next
  case (Suc k)
  from Suc.prems have "i + k \<le> m" by simp
  moreover have "\<And>j. j < k \<Longrightarrow> op (i + j) (rotation K (keyIndex s) j) = Rejected (err j) \<and>
                       isRateLimit (err j) = Inr True"
    using Suc.prems(2) by simp
  ultimately obtain s1 where run:
      "retry_loop K op rnd m i le s =
         retry_loop K op rnd m (i + k) (if k = 0 then le else err (k - 1)) s1"
    and idx: "keyIndex s1 = (keyIndex s + k) mod length (keys K)"
    and eff: "effects s1 = effects s @ rounds K (keyIndex s) rnd i k"
    using Suc.IH by blast
  have n: "0 < length (keys K)" using assms(1) by (cases "keys K") simp_all
  have lt: "i + k < m" using Suc.prems(1) by simp
  have in_range: "keyIndex s1 < length (keys K)" using idx n by simp
  have key: "keys K ! keyIndex s1 = rotation K (keyIndex s) k"
    by (simp add: idx rotation_def)
  have fails: "op (i + k) (keys K ! keyIndex s1) = Rejected (err k)"
    and rl: "isRateLimit (err k) = Inr True"
    using Suc.prems(2)[of k] key by simp_all
  obtain s2 where step:
      "retry_loop K op rnd m (i + k) (if k = 0 then le else err (k - 1)) s1 =
         retry_loop K op rnd m (i + k + 1) (err k) s2"
    and idx2: "keyIndex s2 = (keyIndex s1 + 1) mod length (keys K)"
    and eff2: "effects s2 = effects s1 @ [Invoke (keys K ! keyIndex s1), SetTimeout (backoff rnd (i + k))]"
    using loop_rate_limit'[where op = op and i = "i + k" and rnd = rnd and
        le = "if k = 0 then le else err (k - 1)", OF lt in_range fails rl] by blast
  have "retry_loop K op rnd m i le s =
          retry_loop K op rnd m (i + Suc k) (if Suc k = 0 then le else err (Suc k - 1)) s2"
    using run step by simp
  moreover have "keyIndex s2 = (keyIndex s + Suc k) mod length (keys K)"
    using idx idx2 by (simp add: mod_Suc_eq)
  moreover have "effects s2 = effects s @ rounds K (keyIndex s) rnd i (Suc k)"
    using eff eff2 key by (simp add: rounds_Suc)
  ultimately show ?case by blast
qed

lemma executeWithRetry_nonempty:
  "keys K \<noteq> [] \<Longrightarrow>
   executeWithRetry K op rnd s =
     retry_loop K op rnd (min (length (keys K)) 5) 0 (Plain Undefined) s"
  using length_retry_keys[of K] by (auto simp add: executeWithRetry_def Let_def)

lemma executeWithRetry_empty:
  "keys K = [] \<Longrightarrow>
   executeWithRetry K op rnd s = (settle (op 0 []), s\<lparr>effects := effects s @ [Invoke []]\<rparr>)"
  using length_retry_keys[of K] by (auto simp add: executeWithRetry_def Let_def)




lemma rate_limited_throughout:
  assumes "keyIndex s < length (keys K)"
    and "\<forall>j < min (length (keys K)) 5.
           operation j (rotation K (keyIndex s) j) = Rejected (err j) \<and>
           isRateLimit (err j) = Inr True"
  shows "\<exists>s'. executeWithRetry K operation random s =
                (Inl (Thrown (err (min (length (keys K)) 5 - 1))), s') \<and>
              performed s s' = rounds K (keyIndex s) random 0 (min (length (keys K)) 5)"
proof -
  let ?b = "min (length (keys K)) 5"
  have ne: "keys K \<noteq> []" using assms(1) by auto
  then have pos: "0 < ?b" by simp
  obtain s' where run:
      "retry_loop K operation random ?b 0 (Plain Undefined) s =
         retry_loop K operation random ?b (0 + ?b)
           (if ?b = 0 then Plain Undefined else err (?b - 1)) s'"
    and eff: "effects s' = effects s @ rounds K (keyIndex s) random 0 ?b"
    using loop_rate_limited_run[where op = operation and i = 0 and k = ?b and m = ?b
        and err = err and rnd = random and le = "Plain Undefined", OF assms(1)] assms(2)
    by auto
  have "executeWithRetry K operation random s = (Inl (Thrown (err (?b - 1))), s')"
    using run pos by (simp add: executeWithRetry_nonempty[OF ne] loop_done)
  then show ?thesis
    using performed_append[OF eff] by simp
qed

lemma retry_loop_shape:
  assumes "keyIndex s < length (keys K)"
  shows "\<exists>k r s'. retry_loop K op rnd m i le s = (r, s') \<and> k \<le> m - i \<and>
           keyIndex s' < length (keys K) \<and>
           (\<forall>j<k. \<exists>e. op (i + j) (rotation K (keyIndex s) j) = Rejected e \<and>
                        isRateLimit e = Inr True) \<and>
           (effects s' = effects s @ rounds K (keyIndex s) rnd i k \<and>
            keyIndex s' = (keyIndex s + k) mod length (keys K) \<or>
            k < m - i \<and>
            effects s' = effects s @ rounds K (keyIndex s) rnd i k @
                           [Invoke (rotation K (keyIndex s) k)] \<and>
            keyIndex s' = (keyIndex s + k + 1) mod length (keys K))"
  using assms
proof (induction "m - i" arbitrary: i s le)
  case 0
  then have "retry_loop K op rnd m i le s = (Inl (Thrown le), s)"
    by (simp add: loop_done)
  with "0.prems" show ?case
    by (intro exI[where x = 0] exI[where x = "Inl (Thrown le)"] exI[where x = s])
       (simp add: rounds_0)
next
  case (Suc d)
  let ?c = "keyIndex s"
  let ?n = "length (keys K)"
  from Suc.hyps(2) have lt: "i < m" by simp
  have n: "0 < ?n" using Suc.prems by (cases "keys K") simp_all
  have key0: "rotation K ?c 0 = keys K ! ?c" using Suc.prems by (rule rotation_0)
  have stop: "\<exists>k r s'. retry_loop K op rnd m i le s = (r, s') \<and> k \<le> m - i \<and>
           keyIndex s' < ?n \<and>
           (\<forall>j<k. \<exists>e. op (i + j) (rotation K ?c j) = Rejected e \<and> isRateLimit e = Inr True) \<and>
           (effects s' = effects s @ rounds K ?c rnd i k \<and> keyIndex s' = (?c + k) mod ?n \<or>
            k < m - i \<and> effects s' = effects s @ rounds K ?c rnd i k @ [Invoke (rotation K ?c k)] \<and>
            keyIndex s' = (?c + k + 1) mod ?n)"
    if "retry_loop K op rnd m i le s = (r, issued K s)" for r
    using that lt n key0
    by (intro exI[where x = 0] exI[where x = r] exI[where x = "issued K s"])
       (simp add: rounds_0 issued_def)
  show ?case
  proof (cases "op i (keys K ! ?c)")
    case (Fulfilled v)
    have "retry_loop K op rnd m i le s = (Inr v, issued K s)"
      using lt Suc.prems Fulfilled by (rule loop_fulfilled)
    then show ?thesis by (rule stop)
  next
    case (Rejected e)
    show ?thesis
    proof (cases "isRateLimit e")
      case (Inl t)
      have "retry_loop K op rnd m i le s = (Inl (Raised t), issued K s)"
        using lt Suc.prems Rejected Inl by (rule loop_raised)
      then show ?thesis by (rule stop)
    next
      case (Inr b)
      show ?thesis
      proof (cases b)
        case False
        with Inr have "isRateLimit e = Inr False" by simp
        with lt Suc.prems Rejected
        have "retry_loop K op rnd m i le s = (Inl (Thrown e), issued K s)"
          by (rule loop_other)
        then show ?thesis by (rule stop)
      next
        case True
        with Inr have rl: "isRateLimit e = Inr True" by simp
        obtain s1 where step: "retry_loop K op rnd m i le s = retry_loop K op rnd m (i + 1) e s1"
          and idx1: "keyIndex s1 = (?c + 1) mod ?n"
          and eff1: "effects s1 = effects s @ [Invoke (keys K ! ?c), SetTimeout (backoff rnd i)]"
          using loop_rate_limit'[where op = op and rnd = rnd and le = le,
              OF lt Suc.prems Rejected rl] by blast
        have in1: "keyIndex s1 < ?n" using idx1 n by simp
        have d: "d = m - (i + 1)" using Suc.hyps(2) by simp
        obtain k r s' where run: "retry_loop K op rnd m (i + 1) e s1 = (r, s')"
          and k: "k \<le> m - (i + 1)" and in': "keyIndex s' < ?n"
          and fails: "\<forall>j<k. \<exists>e. op (i + 1 + j) (rotation K (keyIndex s1) j) = Rejected e \<and>
                                isRateLimit e = Inr True"
          and eff: "effects s' = effects s1 @ rounds K (keyIndex s1) rnd (i + 1) k \<and>
                    keyIndex s' = (keyIndex s1 + k) mod ?n \<or>
                    k < m - (i + 1) \<and>
                    effects s' = effects s1 @ rounds K (keyIndex s1) rnd (i + 1) k @
                                   [Invoke (rotation K (keyIndex s1) k)] \<and>
                    keyIndex s' = (keyIndex s1 + k + 1) mod ?n"
          using Suc.hyps(1)[OF d in1, of e] by blast
        have shift: "rotation K (keyIndex s1) j = rotation K ?c (Suc j)" for j
          by (simp add: idx1 rotation_shift)
        have front: "[Invoke (keys K ! ?c), SetTimeout (backoff rnd i)] @
                       rounds K (keyIndex s1) rnd (i + 1) k = rounds K ?c rnd i (Suc k)"
          by (simp add: rounds_front idx1 key0)
        have fails': "\<forall>j<Suc k. \<exists>e. op (i + j) (rotation K ?c j) = Rejected e \<and>
                                   isRateLimit e = Inr True"
        proof (intro allI impI)
          fix j assume "j < Suc k"
          show "\<exists>e. op (i + j) (rotation K ?c j) = Rejected e \<and> isRateLimit e = Inr True"
          proof (cases j)
            case 0
            then show ?thesis using Rejected rl key0 by simp
          next
            case (Suc j')
            with \<open>j < Suc k\<close> have "j' < k" by simp
            with fails have "\<exists>e. op (i + 1 + j') (rotation K (keyIndex s1) j') = Rejected e \<and>
                                 isRateLimit e = Inr True" by blast
            then show ?thesis unfolding shift Suc by simp
          qed
        qed
        have cur: "(keyIndex s1 + j) mod ?n = (?c + Suc j) mod ?n" for j
          unfolding idx1 by (simp add: mod_Suc_eq mod_add_left_eq)
        have eff': "effects s' = effects s @ rounds K ?c rnd i (Suc k) \<and>
                    keyIndex s' = (?c + Suc k) mod ?n \<or>
                    Suc k < m - i \<and>
                    effects s' = effects s @ rounds K ?c rnd i (Suc k) @
                                   [Invoke (rotation K ?c (Suc k))] \<and>
                    keyIndex s' = (?c + Suc k + 1) mod ?n"
        proof (rule disjE[OF eff])
          assume a: "effects s' = effects s1 @ rounds K (keyIndex s1) rnd (i + 1) k \<and>
                    keyIndex s' = (keyIndex s1 + k) mod ?n"
          then have "effects s' = effects s @ rounds K ?c rnd i (Suc k)"
            unfolding eff1 front[symmetric] by simp
          moreover have "keyIndex s' = (?c + Suc k) mod ?n" using a cur[of k] by simp
          ultimately show ?thesis by simp
        next
          assume a: "k < m - (i + 1) \<and>
                    effects s' = effects s1 @ rounds K (keyIndex s1) rnd (i + 1) k @
                                   [Invoke (rotation K (keyIndex s1) k)] \<and>
                    keyIndex s' = (keyIndex s1 + k + 1) mod ?n"
          then have "effects s' = effects s @ rounds K ?c rnd i (Suc k) @
                                   [Invoke (rotation K ?c (Suc k))]"
            unfolding eff1 front[symmetric] shift by simp
          moreover have "Suc k < m - i" using a lt by linarith
          moreover have "keyIndex s' = (?c + Suc k + 1) mod ?n" using a cur[of "Suc k"] by simp
          ultimately show ?thesis by simp
        qed
        have "Suc k \<le> m - i" using k lt by simp
        moreover have "retry_loop K op rnd m i le s = (r, s')" using step run by simp
        ultimately show ?thesis using in' fails' eff'
          by (intro exI[where x = "Suc k"] exI[where x = r] exI[where x = s']) simp
      qed
    qed
  qed
qed

lemma executeWithRetry_shape:
  assumes "keyIndex s < length (keys K)"
  shows "\<exists>k r s'. executeWithRetry K op rnd s = (r, s') \<and> k \<le> min (length (keys K)) 5 \<and>
           keyIndex s' < length (keys K) \<and>
           (\<forall>j<k. \<exists>e. op j (rotation K (keyIndex s) j) = Rejected e \<and>
                        isRateLimit e = Inr True) \<and>
           (performed s s' = rounds K (keyIndex s) rnd 0 k \<and>
            keyIndex s' = (keyIndex s + k) mod length (keys K) \<or>
            k < min (length (keys K)) 5 \<and>
            performed s s' = rounds K (keyIndex s) rnd 0 k @ [Invoke (rotation K (keyIndex s) k)] \<and>
            keyIndex s' = (keyIndex s + k + 1) mod length (keys K))"
proof -
  have ne: "keys K \<noteq> []" using assms by auto
  obtain k r s' where "retry_loop K op rnd (min (length (keys K)) 5) 0 (Plain Undefined) s = (r, s')"
    and "k \<le> min (length (keys K)) 5 - 0" and "keyIndex s' < length (keys K)"
    and "\<forall>j<k. \<exists>e. op (0 + j) (rotation K (keyIndex s) j) = Rejected e \<and>
                        isRateLimit e = Inr True"
    and "effects s' = effects s @ rounds K (keyIndex s) rnd 0 k \<and>
         keyIndex s' = (keyIndex s + k) mod length (keys K) \<or>
            k < min (length (keys K)) 5 - 0 \<and>
            effects s' = effects s @ rounds K (keyIndex s) rnd 0 k @
                           [Invoke (rotation K (keyIndex s) k)] \<and>
         keyIndex s' = (keyIndex s + k + 1) mod length (keys K)"
    using retry_loop_shape[where op = op and rnd = rnd and i = 0 and le = "Plain Undefined"
        and m = "min (length (keys K)) 5", OF assms] by blast
  then show ?thesis
    by (intro exI[where x = k] exI[where x = r] exI[where x = s'])
       (auto simp add: executeWithRetry_nonempty[OF ne] performed_def)
qed

section \<open>The loop among other calls\<close>

lemma getNextApiKey_effects: "getNextApiKey K s = Inr (key, s1) \<Longrightarrow> effects s1 = effects s"
  by (auto simp add: getNextApiKey_def Let_def split: if_splits)

lemma effects_others_issue: "effects (others_issue K m s) = effects s"
  by (induction m arbitrary: s) (auto split: sum.splits dest: getNextApiKey_effects)

lemma invocations_paced: "invocations (paced operation random i creds) = creds"
  by (induction creds arbitrary: i) simp_all

lemma timeouts_paced:
  "timeouts (paced operation random i creds) =
     map (backoff random) (rate_limited_attempts operation i creds)"
  by (induction creds arbitrary: i) simp_all

lemma length_rate_limited_attempts: "length (rate_limited_attempts operation i creds) \<le> length creds"
  by (induction creds arbitrary: i) (simp_all add: le_SucI)

lemma among_done:
  "\<not> i < m \<Longrightarrow> retry_loop_among K op rnd others m i le s = (Inl (Thrown le), s)"
  by (subst retry_loop_among.simps) simp




lemma retry_loop_among_alone:
  "retry_loop_among K op rnd nobody m i le s = retry_loop K op rnd m i le s"
proof (induction "m - i" arbitrary: i le s)
  case 0
  then show ?case by (simp add: among_done loop_done)
next
  case (Suc d)
  then have lt: "i < m" by simp
  have IH: "retry_loop_among K op rnd nobody m (Suc i) le' s' =
              retry_loop K op rnd m (Suc i) le' s'" for le' s'
    using Suc.hyps(1)[of "Suc i" le' s'] Suc.hyps(2) by simp
  show ?case
    by (subst retry_loop_among.simps, subst retry_loop.simps)
       (simp add: lt nobody_def Let_def IH split: sum.splits attempt.splits bool.splits)
qed

lemma executeWithRetry_among_alone:
  "executeWithRetry_among K op rnd nobody s = executeWithRetry K op rnd s"
  by (simp add: executeWithRetry_among_def executeWithRetry_def retry_loop_among_alone
      nobody_def Let_def)


lemma retry_loop_among_paced:
  "\<exists>r s' creds. retry_loop_among K op rnd others m i le s = (r, s') \<and> length creds \<le> m - i \<and>
     effects s' = effects s @ paced op rnd i creds"
proof (induction "m - i" arbitrary: i le s)
  case 0
  then have "retry_loop_among K op rnd others m i le s = (Inl (Thrown le), s)"
    by (simp add: among_done)
  then show ?case
    by (intro exI[where x = "Inl (Thrown le)"] exI[where x = s] exI[where x = "[]"]) simp
next
  case (Suc d)
  then have lt: "i < m" by simp
  show ?case
  proof (cases "getNextApiKey K s")
    case (Inl t)
    then have "retry_loop_among K op rnd others m i le s = (Inl (Raised t), s)"
      by (subst retry_loop_among.simps) (simp add: lt)
    then show ?thesis
      by (intro exI[where x = "Inl (Raised t)"] exI[where x = s] exI[where x = "[]"]) simp
  next
    case (Inr issued_now)
    obtain key s1 where pair: "issued_now = (key, s1)" by (cases issued_now)
    with Inr have next_key: "getNextApiKey K s = Inr (key, s1)" by simp
    define s2 where "s2 = others_issue K (others (2 * i)) (s1\<lparr>effects := effects s1 @ [Invoke key]\<rparr>)"
    have eff2: "effects s2 = effects s @ [Invoke key]"
      by (simp add: s2_def effects_others_issue getNextApiKey_effects[OF next_key])
    have stop: "\<exists>r s' creds. retry_loop_among K op rnd others m i le s = (r, s') \<and>
                  length creds \<le> m - i \<and> effects s' = effects s @ paced op rnd i creds"
      if "retry_loop_among K op rnd others m i le s = (r, s2)"
        and "\<not> rate_limited (op i key)" for r
      using that lt eff2
      by (intro exI[where x = r] exI[where x = s2] exI[where x = "[key]"]) simp
    show ?thesis
    proof (cases "op i key")
      case (Fulfilled v)
      have "retry_loop_among K op rnd others m i le s = (Inr v, s2)"
        by (subst retry_loop_among.simps) (simp add: lt next_key Fulfilled s2_def Let_def)
      moreover have "\<not> rate_limited (op i key)" by (simp add: rate_limited_def Fulfilled)
      ultimately show ?thesis by (rule stop)
    next
      case (Rejected e)
      show ?thesis
      proof (cases "isRateLimit e")
        case (Inl t)
        have "retry_loop_among K op rnd others m i le s = (Inl (Raised t), s2)"
          by (subst retry_loop_among.simps) (simp add: lt next_key Rejected Inl s2_def Let_def)
        moreover have "\<not> rate_limited (op i key)" by (simp add: rate_limited_def Rejected Inl)
        ultimately show ?thesis by (rule stop)
      next
        case (Inr b)
        show ?thesis
        proof (cases b)
          case False
          have "retry_loop_among K op rnd others m i le s = (Inl (Thrown e), s2)"
            by (subst retry_loop_among.simps) (simp add: lt next_key Rejected Inr False s2_def Let_def)
          moreover have "\<not> rate_limited (op i key)"
            by (simp add: rate_limited_def Rejected Inr False)
          ultimately show ?thesis by (rule stop)
        next
          case True
          define s3 where "s3 = others_issue K (others (2 * i + 1))
                          (s2\<lparr>console := console s2 @ [RateLimitHit (i + 1) m],
                              effects := effects s2 @ [SetTimeout (backoff rnd i)]\<rparr>)"
          have eff3: "effects s3 = effects s @ [Invoke key, SetTimeout (backoff rnd i)]"
            by (simp add: s3_def effects_others_issue eff2)
          have step: "retry_loop_among K op rnd others m i le s =
                        retry_loop_among K op rnd others m (i + 1) e s3"
            by (subst retry_loop_among.simps)
               (simp add: lt next_key Rejected Inr True s2_def s3_def backoff_def Let_def)
          have d: "d = m - (i + 1)" using Suc.hyps(2) by simp
          obtain r s' creds where run: "retry_loop_among K op rnd others m (i + 1) e s3 = (r, s')"
            and len: "length creds \<le> m - (i + 1)"
            and eff: "effects s' = effects s3 @ paced op rnd (i + 1) creds"
            using Suc.hyps(1)[OF d, of e s3] by blast
          have rl: "rate_limited (op i key)" by (simp add: rate_limited_def Rejected Inr True)
          have "retry_loop_among K op rnd others m i le s = (r, s')" using step run by simp
          moreover have "length (key # creds) \<le> m - i" using len lt by simp
          moreover have "effects s' = effects s @ paced op rnd i (key # creds)"
            using eff eff3 rl by simp
          ultimately show ?thesis by blast
        qed
      qed
    qed
  qed
qed

lemma executeWithRetry_among_nonempty:
  "keys K \<noteq> [] \<Longrightarrow>
   executeWithRetry_among K op rnd others s =
     retry_loop_among K op rnd others (min (length (keys K)) 5) 0 (Plain Undefined) s"
  using length_retry_keys[of K] by (auto simp add: executeWithRetry_among_def Let_def)

lemma executeWithRetry_among_empty:
  "keys K = [] \<Longrightarrow>
   executeWithRetry_among K op rnd others s =
     (settle (op 0 []), others_issue K (others 0) (s\<lparr>effects := effects s @ [Invoke []]\<rparr>))"
  using length_retry_keys[of K] by (auto simp add: executeWithRetry_among_def Let_def)

lemma executeWithRetry_among_paced:
  assumes "keys K \<noteq> []"
  shows "\<exists>r s'. executeWithRetry_among K op rnd others s = (r, s') \<and>
           length (invocations (performed s s')) \<le> min (length (keys K)) 5 \<and>
           performed s s' = paced op rnd 0 (invocations (performed s s'))"
proof -
  obtain r s' creds where
    "retry_loop_among K op rnd others (min (length (keys K)) 5) 0 (Plain Undefined) s = (r, s')"
    and len: "length creds \<le> min (length (keys K)) 5 - 0"
    and "effects s' = effects s @ paced op rnd 0 creds"
    using retry_loop_among_paced[of K op rnd others "min (length (keys K)) 5" 0 "Plain Undefined" s]
    by blast
  then have res: "executeWithRetry_among K op rnd others s = (r, s')"
    and eff: "performed s s' = paced op rnd 0 creds"
    by (simp_all add: executeWithRetry_among_nonempty[OF assms] performed_def)
  have "invocations (performed s s') = creds" by (simp add: eff invocations_paced)
  with res eff len show ?thesis by simp
qed



lemma set_rate_limited_attempts_timeouts_range:
  assumes "\<forall>i. 0 \<le> rnd i \<and> rnd i < 1 \<and> to_double (rnd i) = rnd i"
  shows "\<forall>d \<in> set (map (backoff rnd) js). 200 \<le> d \<and> d < 500"
  using assms backoff_range[of rnd] by auto

section \<open>Facts about masking and classification\<close>

lemma includes_str_sublist: "includes_str hay needle \<longleftrightarrow> sublist needle hay"
  by (induction hay) (simp_all add: sublist_Cons_right)

lemma includes_str_length: "includes_str hay needle \<Longrightarrow> length needle \<le> length hay"
  by (auto simp add: includes_str_sublist sublist_def)

lemma substring_prefix: "substring key 0 (int n) = take n key"
  by (simp add: substring_def clamp_index_def Let_def min_def)

lemma substring_suffix: "substring_from key (int (length key) - int n) = drop (length key - n) key"
proof -
  have "nat (int (length key) - int n) = length key - n" by simp
  then show ?thesis
    by (simp add: substring_from_def substring_def clamp_index_def Let_def min_def max_def)
qed

lemma maskedKey_eq: "maskedKey key = take 8 key @ ''...'' @ drop (length key - 4) key"
  using substring_prefix[of key 8] substring_suffix[of key 4] by (simp add: maskedKey_def)

lemma maskedKey_40:
  "length key = 40 \<Longrightarrow> maskedKey key = take 8 key @ ''...'' @ drop 36 key"
  by (simp add: maskedKey_eq)

lemma maskedKey_length: "length (maskedKey key) \<le> 15"
  by (simp add: maskedKey_eq)

lemma maskedKey_hides_long_key: "15 < length key \<Longrightarrow> \<not> includes_str (maskedKey key) key"
  using includes_str_length[of "maskedKey key" key] maskedKey_length[of key] by auto

lemma maskedKey_shows_short_key: "length key \<le> 8 \<Longrightarrow> prefix key (maskedKey key)"
  by (simp add: maskedKey_eq)

lemma isRateLimit_Str:
  "isRateLimit (Err r (Str t) st) =
     Inr (includes_str t ''429'' \<or> includes_str t ''Resource has been exhausted'' \<or> st = Num 429)"
  by (simp add: isRateLimit_def split: bool.splits)

lemma isRateLimit_nullish_message:
  "m = Undefined \<or> m = Null \<Longrightarrow> isRateLimit (Err r m st) = Inr (st = Num 429)"
  by (auto simp add: isRateLimit_def)

lemma isRateLimit_Plain:
  "isRateLimit (Plain v) = (if v = Undefined \<or> v = Null then Inl TypeError else Inr False)"
  by (cases v) (simp_all add: isRateLimit_def)

lemma isRateLimit_raises:
  "isRateLimit error = Inl TypeError \<longleftrightarrow>
     error = Plain Undefined \<or> error = Plain Null \<or>
     (\<exists>r m st. error = Err r m st \<and> m \<noteq> Undefined \<and> m \<noteq> Null \<and> (\<forall>t. m \<noteq> Str t))"
proof (cases error)
  case (Plain v)
  then show ?thesis by (auto simp add: isRateLimit_Plain)
next
  case (Err r m st)
  then show ?thesis
    by (cases m) (simp_all add: isRateLimit_Str isRateLimit_nullish_message, simp_all add: isRateLimit_def)
qed

section \<open>The scenarios evaluated\<close>

lemma keys_AB: "keys (Some ''A, B'') = [''A'', ''B'']"
  by (simp add: keys_def keysRaw_def trim_def is_white_space_def)



lemma keys_A: "keys (Some ''A'') = [''A'']"
  by (simp add: keys_def keysRaw_def trim_def is_white_space_def)

lemma keys_blank: "keys (Some '' , '') = []"
  by (simp add: keys_def keysRaw_def trim_def is_white_space_def)

lemma keys_None: "keys None = []"
  by (simp add: keys_def keysRaw_def trim_def)

lemma keys_spaced: "keys (Some ''A, B ,C'') = [''A'', ''B'', ''C'']"
  by (simp add: keys_def keysRaw_def trim_def is_white_space_def)

lemma keys_abc: "keys (Some ''abc'') = [''abc'']"
  by (simp add: keys_def keysRaw_def trim_def is_white_space_def)

lemma half_is_double: "0 \<le> half i \<and> half i < 1 \<and> to_double (half i) = half i"
  by (simp add: half_def to_double_half)

lemma backoff_half: "backoff half i = 350"
  by (simp add: backoff_def half_def to_double_150 to_double_350)

lemma rl_429: "isRateLimit (rate_limit_error j) = Inr True"
  by (simp add: isRateLimit_def rate_limit_error_def)



section \<open>C1: success after rate-limited attempts\<close>




section \<open>C2: exhausting the budget\<close>



section \<open>C3: aborting on any other failure\<close>



section \<open>C4: classifying a failure\<close>

text \<open>
  Claim C4, as the code has it. A thrown object whose message is a string is classified as a
  rate limit exactly when the message contains \<^verbatim>\<open>429\<close> or \<^verbatim>\<open>Resource has been exhausted\<close>, or
  its status is the number 429; one without a message exactly when its status is the number
  429; a thrown primitive or bare object never. Every other such failure is not a rate limit.
\<close>

theorem rate_limit_classification:
  "isRateLimit (Err r (Str t) st) =
     Inr (includes_str t ''429'' \<or> includes_str t ''Resource has been exhausted'' \<or> st = Num 429) \<and>
   (m = Undefined \<or> m = Null \<longrightarrow> isRateLimit (Err r m st) = Inr (st = Num 429)) \<and>
   (v \<noteq> Undefined \<and> v \<noteq> Null \<longrightarrow> isRateLimit (Plain v) = Inr False)"
proof (intro conjI impI)
  show "isRateLimit (Err r (Str t) st) =
     Inr (includes_str t ''429'' \<or> includes_str t ''Resource has been exhausted'' \<or> st = Num 429)"
    by (rule isRateLimit_Str)
  show "isRateLimit (Err r m st) = Inr (st = Num 429)" if "m = Undefined \<or> m = Null"
    using that by (rule isRateLimit_nullish_message)
  show "isRateLimit (Plain v) = Inr False" if "v \<noteq> Undefined \<and> v \<noteq> Null"
    using that by (simp add: isRateLimit_Plain)
qed

theorem rate_limit_classification_witness:
  "isRateLimit (Err 0 (Str ''Resource has been exhausted (e.g. check quota).'') Undefined) =
     Inr True \<and>
   isRateLimit (Err 0 Undefined (Num 429)) = Inr True \<and>
   isRateLimit (Err 0 Undefined (Num 503)) = Inr False \<and>
   isRateLimit (Plain (Str ''429'')) = Inr False"
  using rate_limit_classification[where t = "''Resource has been exhausted (e.g. check quota).''"
      and r = 0 and st = Undefined and m = Undefined and v = "Str ''429''"]
    rate_limit_classification[where t = "''''" and r = 0 and st = "Num 429" and m = Undefined
      and v = "Str ''429''"]
    rate_limit_classification[where t = "''''" and r = 0 and st = "Num 503" and m = Undefined
      and v = "Str ''429''"]
  by simp

text \<open>
  The test is one of substrings, not of meaning: an error that says \<^verbatim>\<open>Quota exceeded\<close>, without
  the status 429, is not a rate limit for the code, and a parse error at position 4290 is.
\<close>

theorem quota_message_counterexample:
  "spec_rate_limited (Err 0 (Str ''Quota exceeded'') Undefined) \<and>
   isRateLimit (Err 0 (Str ''Quota exceeded'') Undefined) = Inr False \<and>
   \<not> spec_rate_limited (Err 1 (Str ''Unexpected token at position 4290'') (Num 400)) \<and>
   isRateLimit (Err 1 (Str ''Unexpected token at position 4290'') (Num 400)) = Inr True"
  by (simp add: spec_rate_limited_def spec_quota_message_def isRateLimit_def)

section \<open>C5: backoff delays\<close>

text \<open>
  Claim C5, as the code has it. In one call on a non-empty pool, whatever other calls do
  meanwhile, a delay is requested right after every attempt that fails with an error
  classified as a rate limit, the last attempt of the budget included, and at no other point:
  the effects of the call are its at most \<open>min n 5\<close> invocations, each followed by a delay
  exactly when it was rate-limited. With \<^verbatim>\<open>Math.random\<close> a double in \<open>[0, 1)\<close> each delay, as
  computed in double precision, is at least 200 and below 500 milliseconds, so that the delays
  of one call add up to at most \<open>min n 5 * 500\<close> milliseconds. A call on an empty pool invokes
  the operation once and requests no delay.
\<close>

theorem backoff_after_each_rate_limit:
  assumes "\<forall>i. 0 \<le> random i \<and> random i < 1 \<and> to_double (random i) = random i"
  shows "(keys K \<noteq> [] \<longrightarrow>
            length (invocations
              (performed s (snd (executeWithRetry_among K operation random others s)))) \<le>
              min (length (keys K)) 5 \<and>
            performed s (snd (executeWithRetry_among K operation random others s)) =
              paced operation random 0
                (invocations
                  (performed s (snd (executeWithRetry_among K operation random others s)))) \<and>
            timeouts (performed s (snd (executeWithRetry_among K operation random others s))) =
              map (backoff random)
                (rate_limited_attempts operation 0
                  (invocations
                    (performed s (snd (executeWithRetry_among K operation random others s))))) \<and>
            length
              (timeouts (performed s (snd (executeWithRetry_among K operation random others s)))) \<le>
              min (length (keys K)) 5 \<and>
            (\<forall>d \<in> set (timeouts
                        (performed s (snd (executeWithRetry_among K operation random others s)))).
               200 \<le> d \<and> d < 500) \<and>
            sum_list
              (timeouts (performed s (snd (executeWithRetry_among K operation random others s)))) \<le>
              real (min (length (keys K)) 5) * 500) \<and>
         (keys K = [] \<longrightarrow>
            performed s (snd (executeWithRetry_among K operation random others s)) = [Invoke []])"
proof (cases "keys K = []")
  case True
  then have "performed s (snd (executeWithRetry_among K operation random others s)) = [Invoke []]"
    by (simp add: executeWithRetry_among_empty performed_def effects_others_issue)
  with True show ?thesis by simp
next
  case False
  let ?b = "min (length (keys K)) 5"
  obtain r s' where res: "executeWithRetry_among K operation random others s = (r, s')"
    and len: "length (invocations (performed s s')) \<le> ?b"
    and shape: "performed s s' = paced operation random 0 (invocations (performed s s'))"
    using executeWithRetry_among_paced[OF False, of operation random others s] by blast
  let ?js = "rate_limited_attempts operation 0 (invocations (performed s s'))"
  have "timeouts (performed s s') =
          timeouts (paced operation random 0 (invocations (performed s s')))"
    using shape by simp
  then have t: "timeouts (performed s s') = map (backoff random) ?js"
    by (simp only: timeouts_paced)
  have "length ?js \<le> length (invocations (performed s s'))"
    by (rule length_rate_limited_attempts)
  then have count: "length (timeouts (performed s s')) \<le> ?b"
    using len by (simp add: t)
  have range: "\<forall>d \<in> set (timeouts (performed s s')). 200 \<le> d \<and> d < 500"
    unfolding t by (rule set_rate_limited_attempts_timeouts_range[OF assms])
  then have "\<forall>d \<in> set (timeouts (performed s s')). d \<le> 500" by auto
  then have "sum_list (timeouts (performed s s')) \<le>
               real (length (timeouts (performed s s'))) * 500"
    by (rule sum_list_bounded)
  also have "\<dots> \<le> real ?b * 500" using count by simp
  finally have total: "sum_list (timeouts (performed s s')) \<le> real ?b * 500" .
  show ?thesis
    using False len shape t count range total by (simp add: res)
qed

theorem backoff_after_each_rate_limit_witness:
  "(\<forall>i. 0 \<le> half i \<and> half i < 1 \<and> to_double (half i) = half i) \<and>
   keys (Some ''A, B'') \<noteq> [] \<and>
   length (timeouts (performed initial_state
     (snd (executeWithRetry_among (Some ''A, B'') always_rate_limited half one_rival
        initial_state)))) \<le> 2 \<and>
   sum_list (timeouts (performed initial_state
     (snd (executeWithRetry_among (Some ''A, B'') always_rate_limited half one_rival
        initial_state)))) \<le> 1000 \<and>
   keys (Some '' , '') = [] \<and>
   performed initial_state
     (snd (executeWithRetry_among (Some '' , '') always_rate_limited half one_rival
        initial_state)) = [Invoke []]"
proof -
  let ?K = "Some ''A, B''"
  have h: "\<forall>i. 0 \<le> half i \<and> half i < 1 \<and> to_double (half i) = half i"
    using half_is_double by simp
  have ne: "keys ?K \<noteq> []" by (simp add: keys_AB)
  have b: "min (length (keys ?K)) 5 = 2" by (simp add: keys_AB)
  have e: "keys (Some '' , '') = []" by (simp add: keys_blank)
  note run = backoff_after_each_rate_limit[where K = ?K and operation = always_rate_limited
      and random = half and others = one_rival and s = initial_state, OF h]
  note blank = backoff_after_each_rate_limit[where K = "Some '' , ''"
      and operation = always_rate_limited and random = half and others = one_rival
      and s = initial_state, OF h]
  have count: "length (timeouts (performed initial_state
      (snd (executeWithRetry_among ?K always_rate_limited half one_rival initial_state)))) \<le> 2"
    using run[THEN conjunct1, THEN mp, OF ne] unfolding b by (elim conjE)
  have total: "sum_list (timeouts (performed initial_state
      (snd (executeWithRetry_among ?K always_rate_limited half one_rival initial_state)))) \<le> 1000"
    using run[THEN conjunct1, THEN mp, OF ne] unfolding b by (elim conjE) simp
  have none: "performed initial_state
      (snd (executeWithRetry_among (Some '' , '') always_rate_limited half one_rival
         initial_state)) = [Invoke []]"
    using blank[THEN conjunct2, THEN mp, OF e] .
  show ?thesis
    by (intro conjI h ne count total e none)
qed

text \<open>
  With the single credential \<open>A\<close> and a rate-limited attempt, the budget is 1 and one delay of
  350 milliseconds is requested after the only attempt: more than \<open>budget - 1 = 0\<close> delays, and
  not between two attempts.
\<close>

theorem delay_after_final_attempt_counterexample:
  "min (length (keys (Some ''A''))) 5 = 1 \<and>
   performed initial_state
     (snd (executeWithRetry_among (Some ''A'') always_rate_limited half nobody initial_state)) =
     [Invoke ''A'', SetTimeout 350] \<and>
   \<not> length (timeouts (performed initial_state
       (snd (executeWithRetry_among (Some ''A'') always_rate_limited half nobody initial_state))))
     \<le> min (length (keys (Some ''A''))) 5 - 1 \<and>
   \<not> sum_list (timeouts (performed initial_state
       (snd (executeWithRetry_among (Some ''A'') always_rate_limited half nobody initial_state))))
     \<le> real (min (length (keys (Some ''A''))) 5 - 1) * 500"
proof -
  let ?K = "Some ''A''"
  have h1: "keyIndex initial_state < length (keys ?K)"
    by (simp add: keys_A initial_state_def)
  have h2: "\<forall>j < min (length (keys ?K)) 5.
           always_rate_limited j (rotation ?K (keyIndex initial_state) j) =
             Rejected (rate_limit_error j) \<and>
           isRateLimit (rate_limit_error j) = Inr True"
    by (simp add: rl_429 always_rate_limited_def)
  obtain s' where res: "executeWithRetry ?K always_rate_limited half initial_state =
                (Inl (Thrown (rate_limit_error (min (length (keys ?K)) 5 - 1))), s')"
    and eff: "performed initial_state s' =
           rounds ?K (keyIndex initial_state) half 0 (min (length (keys ?K)) 5)"
    using rate_limited_throughout[where operation = always_rate_limited
        and err = rate_limit_error and random = half, OF h1 h2] by blast
  have "performed initial_state s' = [Invoke ''A'', SetTimeout 350]"
    unfolding eff
    by (simp add: keys_A initial_state_def rounds_def rotation_def backoff_half)
  then show ?thesis
    by (simp add: executeWithRetry_among_alone res keys_A)
qed

section \<open>C6: round-robin issuance\<close>

text \<open>
  Claim C6. For a pool of \<open>n \<ge> 1\<close> credentials, \<open>n\<close> calls of \<^verbatim>\<open>getNextApiKey\<close> from the initial
  state return the pool, each credential once and in the configured order, and bring the
  cursor back to 0; call \<open>n + 1\<close> returns the first credential again. Every issuance moves
  the cursor by one modulo \<open>n\<close>, and a call of \<^verbatim>\<open>executeWithRetry\<close> moves it by the number
  of invocations it made, whatever their outcomes.
\<close>

theorem round_robin_issuance:
  assumes "keys K \<noteq> []"
  shows "(\<exists>s'. issue K (length (keys K)) initial_state = Inr (keys K, s') \<and> keyIndex s' = 0) \<and>
         (\<exists>s'. issue K (length (keys K) + 1) initial_state = Inr (keys K @ [keys K ! 0], s')) \<and>
         (keyIndex s < length (keys K) \<longrightarrow>
            (\<exists>s'. getNextApiKey K s = Inr (keys K ! keyIndex s, s') \<and>
                  keyIndex s' = (keyIndex s + 1) mod length (keys K)) \<and>
            keyIndex (snd (executeWithRetry K operation random s)) =
              (keyIndex s +
               length (invocations (performed s (snd (executeWithRetry K operation random s)))))
              mod length (keys K))"
proof (intro conjI impI)
  let ?n = "length (keys K)"
  have n: "0 < ?n" using assms by simp
  have start: "keyIndex initial_state < ?n" using n by (simp add: initial_state_def)
  have c0: "keyIndex initial_state = 0" by (simp add: initial_state_def)
  obtain s' where run: "issue K ?n initial_state =
                          Inr (map (rotation K (keyIndex initial_state)) [0..<?n], s')"
    and idx: "keyIndex s' = (keyIndex initial_state + ?n) mod ?n"
    using issue_rotation[OF start, of ?n] by blast
  have "issue K ?n initial_state = Inr (keys K, s')"
    using run unfolding c0 rotation_from_start[OF assms] .
  moreover have "keyIndex s' = 0" using idx by (simp add: c0)
  ultimately show "\<exists>s'. issue K ?n initial_state = Inr (keys K, s') \<and> keyIndex s' = 0"
    by blast
  obtain s'' where run': "issue K (?n + 1) initial_state =
                          Inr (map (rotation K (keyIndex initial_state)) [0..<?n + 1], s'')"
    using issue_rotation[OF start, of "?n + 1"] by blast
  have "map (rotation K 0) [0..<?n + 1] = map (rotation K 0) [0..<?n] @ [rotation K 0 ?n]"
    by simp
  also have "\<dots> = keys K @ [keys K ! 0]"
    unfolding rotation_from_start[OF assms] by (simp add: rotation_def)
  finally have "issue K (?n + 1) initial_state = Inr (keys K @ [keys K ! 0], s'')"
    using run' unfolding c0 by simp
  then show "\<exists>s'. issue K (?n + 1) initial_state = Inr (keys K @ [keys K ! 0], s')"
    by blast
next
  assume in_range: "keyIndex s < length (keys K)"
  show "\<exists>s'. getNextApiKey K s = Inr (keys K ! keyIndex s, s') \<and>
             keyIndex s' = (keyIndex s + 1) mod length (keys K)"
    using getNextApiKey_step[OF in_range] by auto
  obtain k r s' where res: "executeWithRetry K operation random s = (r, s')"
    and eff: "performed s s' = rounds K (keyIndex s) random 0 k \<and>
            keyIndex s' = (keyIndex s + k) mod length (keys K) \<or>
            k < min (length (keys K)) 5 \<and>
            performed s s' = rounds K (keyIndex s) random 0 k @ [Invoke (rotation K (keyIndex s) k)] \<and>
            keyIndex s' = (keyIndex s + k + 1) mod length (keys K)"
    using executeWithRetry_shape[where op = operation and rnd = random, OF in_range] by blast
  from eff have "keyIndex s' =
                   (keyIndex s + length (invocations (performed s s'))) mod length (keys K)"
    by (auto simp add: invocations_append invocations_rounds)
  then show "keyIndex (snd (executeWithRetry K operation random s)) =
              (keyIndex s +
               length (invocations (performed s (snd (executeWithRetry K operation random s)))))
              mod length (keys K)"
    by (simp add: res)
qed

theorem round_robin_issuance_witness:
  "(\<exists>s'. issue (Some ''A, B ,C'') 3 initial_state = Inr ([''A'', ''B'', ''C''], s') \<and>
         keyIndex s' = 0) \<and>
   (\<exists>s'. issue (Some ''A, B ,C'') 4 initial_state = Inr ([''A'', ''B'', ''C'', ''A''], s')) \<and>
   (\<exists>s'. getNextApiKey (Some ''A, B ,C'') \<lparr>keyIndex = 2, console = [], effects = []\<rparr> =
           Inr (''C'', s') \<and> keyIndex s' = 0)"
proof -
  have ne: "keys (Some ''A, B ,C'') \<noteq> []" by (simp add: keys_spaced)
  have len: "length (keys (Some ''A, B ,C'')) = 3" by (simp add: keys_spaced)
  show ?thesis
    using round_robin_issuance[OF ne, where s = "\<lparr>keyIndex = 2, console = [], effects = []\<rparr>"
        and operation = succeeds_second and random = half,
        unfolded len, unfolded keys_spaced]
    by (simp del: issue.simps)
qed

section \<open>C7: the empty pool\<close>

text \<open>
  Claim C7. When the pool is empty, \<^verbatim>\<open>getNextApiKey\<close> returns the empty string and raises
  nothing, however often it is called, and leaves the cursor alone; \<^verbatim>\<open>executeWithRetry\<close>
  invokes the operation exactly once, with the empty string, requests no delay, and settles
  as that invocation does: fulfilled with its value or rejected with its error.
\<close>

theorem empty_pool_single_attempt:
  assumes "keys K = []"
  shows "getNextApiKey K s = Inr ([], s\<lparr>console := console s @ [NoKeysFound]\<rparr>) \<and>
         (\<exists>s'. issue K m s = Inr (replicate m [], s') \<and> keyIndex s' = keyIndex s) \<and>
         fst (executeWithRetry K operation random s) =
           (case operation 0 [] of Fulfilled v \<Rightarrow> Inr v | Rejected e \<Rightarrow> Inl (Thrown e)) \<and>
         performed s (snd (executeWithRetry K operation random s)) = [Invoke []] \<and>
         keyIndex (snd (executeWithRetry K operation random s)) = keyIndex s"
proof -
  have "getNextApiKey K s = Inr ([], s\<lparr>console := console s @ [NoKeysFound]\<rparr>)"
    using assms by (rule getNextApiKey_empty)
  moreover have "\<exists>s'. issue K m s = Inr (replicate m [], s') \<and> keyIndex s' = keyIndex s"
    using issue_empty[OF assms, of m s] by blast
  moreover have "executeWithRetry K operation random s =
                   (settle (operation 0 []), s\<lparr>effects := effects s @ [Invoke []]\<rparr>)"
    using assms by (rule executeWithRetry_empty)
  moreover have "settle a = (case a of Fulfilled v \<Rightarrow> Inr v | Rejected e \<Rightarrow> Inl (Thrown e))"
    for a :: "'a attempt"
    by (cases a) simp_all
  ultimately show ?thesis by (simp add: performed_def)
qed

theorem empty_pool_single_attempt_witness:
  "getNextApiKey None initial_state =
     Inr ([], \<lparr>keyIndex = 0, console = [NoKeysFound], effects = []\<rparr>) \<and>
   fst (executeWithRetry None needs_key half initial_state) =
     Inl (Thrown (Err 3 (Str ''API key not valid'') (Num 400))) \<and>
   performed initial_state (snd (executeWithRetry None needs_key half initial_state)) =
     [Invoke []] \<and>
   fst (executeWithRetry None echo_key half initial_state) = Inr []"
  using empty_pool_single_attempt[OF keys_None, where s = initial_state and m = 0
      and operation = needs_key and random = half]
    empty_pool_single_attempt[OF keys_None, where s = initial_state and m = 0
      and operation = echo_key and random = half]
  by (simp add: initial_state_def needs_key_def echo_key_def)

section \<open>C8: parsing the configuration\<close>

text \<open>
  Claim C8. Every configuration string is a non-empty sequence of comma-free entries joined
  by commas, and for every such sequence the pool of \<^verbatim>\<open>getNextApiKey\<close> consists of the trimmed
  entries that are not empty after trimming, in their order; its size, and the size of the
  pool that \<^verbatim>\<open>executeWithRetry\<close> counts, is the number of those entries. An unset variable
  is read as the empty string.
\<close>

theorem pool_is_trimmed_nonblank_entries:
  "(entries \<noteq> [] \<and> (\<forall>p \<in> set entries. CHR '','' \<notin> set p) \<longrightarrow>
      keys (Some (join_comma entries)) = map trim (filter (\<lambda>p. trim p \<noteq> []) entries) \<and>
      length (keys (Some (join_comma entries))) = length (filter (\<lambda>p. trim p \<noteq> []) entries) \<and>
      length (retry_keys (Some (join_comma entries))) =
        length (filter (\<lambda>p. trim p \<noteq> []) entries)) \<and>
   (\<exists>entries. entries \<noteq> [] \<and> (\<forall>p \<in> set entries. CHR '','' \<notin> set p) \<and>
      raw = join_comma entries) \<and>
   keys None = keys (Some [])"
proof (intro conjI impI)
  assume a: "entries \<noteq> [] \<and> (\<forall>p \<in> set entries. CHR '','' \<notin> set p)"
  have raw: "keysRaw (Some (join_comma entries)) = join_comma entries"
    by (simp add: keysRaw_def)
  have sp: "split_comma (join_comma entries) = entries"
    using a by (simp add: split_join_comma)
  show k: "keys (Some (join_comma entries)) = map trim (filter (\<lambda>p. trim p \<noteq> []) entries)"
    by (simp add: keys_def raw sp filter_map comp_def)
  show "length (keys (Some (join_comma entries))) = length (filter (\<lambda>p. trim p \<noteq> []) entries)"
    by (simp add: k)
  show "length (retry_keys (Some (join_comma entries))) =
          length (filter (\<lambda>p. trim p \<noteq> []) entries)"
    by (simp add: retry_keys_def raw sp)
next
  show "\<exists>entries. entries \<noteq> [] \<and> (\<forall>p \<in> set entries. CHR '','' \<notin> set p) \<and>
      raw = join_comma entries"
    using split_comma_not_Nil[of raw] split_comma_no_comma[of _ raw] join_split_comma[of raw]
    by (intro exI[where x = "split_comma raw"]) auto
next
  show "keys None = keys (Some [])" by (simp add: keys_def keysRaw_def)
qed

theorem pool_is_trimmed_nonblank_entries_witness:
  "keys (Some '' k1 ,, k2,  '') = [''k1'', ''k2''] \<and>
   length (retry_keys (Some '' k1 ,, k2,  '')) = 2"
proof -
  have j: "join_comma ['' k1 '', '''', '' k2'', ''  ''] = '' k1 ,, k2,  ''" by simp
  have h: "['' k1 '', '''', '' k2'', ''  ''] \<noteq> [] \<and>
           (\<forall>p \<in> set ['' k1 '', '''', '' k2'', ''  '']. CHR '','' \<notin> set p)" by simp
  show ?thesis
    using pool_is_trimmed_nonblank_entries[where entries = "['' k1 '', '''', '' k2'', ''  '']"
        and raw = "''x''"] h
    unfolding j by (simp add: trim_def is_white_space_def)
qed

section \<open>C9: the masked credential\<close>

text \<open>
  Claim C9 fails on short credentials. The masked form is the first 8 characters, three dots
  and the last 4 characters; for a credential of 40 characters that hides the middle, and it
  cannot contain a credential of more than 15 characters, but a credential of at most 8
  characters is its own prefix: for the pool \<^verbatim>\<open>API_KEY = "abc"\<close> the line logged by
  \<^verbatim>\<open>getNextApiKey\<close> carries \<^verbatim>\<open>abc...abc\<close>, which contains the credential in full.
\<close>

theorem masked_short_key_leaks:
  "getNextApiKey (Some ''abc'') initial_state =
     Inr (''abc'', \<lparr>keyIndex = 0, console = [UsingKey 1 1 ''abc...abc''], effects = []\<rparr>) \<and>
   includes_str ''abc...abc'' ''abc''"
  by (simp add: getNextApiKey_def keys_abc maskedKey_eq initial_state_def Let_def)

section \<open>C10: the cursor stays inside the pool\<close>

text \<open>
  Claim C10. For a configuration with \<open>n \<ge> 1\<close> credentials the cursor is below \<open>n\<close> initially
  and after any number of issuances. From a cursor below \<open>n\<close>, \<^verbatim>\<open>getNextApiKey\<close> reads
  \<^verbatim>\<open>keys[keyIndex]\<close> in bounds, returns an element of the pool and leaves the cursor below
  \<open>n\<close>; and \<^verbatim>\<open>executeWithRetry\<close> hands the operation elements of the pool only.
\<close>

theorem cursor_stays_in_pool:
  assumes "keys K \<noteq> []"
  shows "keyIndex initial_state < length (keys K) \<and>
         (\<exists>ks s'. issue K m initial_state = Inr (ks, s') \<and> keyIndex s' < length (keys K) \<and>
                  set ks \<subseteq> set (keys K)) \<and>
         (keyIndex s < length (keys K) \<longrightarrow>
            (\<exists>s'. getNextApiKey K s = Inr (keys K ! keyIndex s, s') \<and>
                  keys K ! keyIndex s \<in> set (keys K) \<and> keyIndex s' < length (keys K)) \<and>
            keyIndex (snd (executeWithRetry K operation random s)) < length (keys K) \<and>
            set (invocations (performed s (snd (executeWithRetry K operation random s))))
              \<subseteq> set (keys K))"
proof (intro conjI impI)
  let ?n = "length (keys K)"
  have n: "0 < ?n" using assms by simp
  show start: "keyIndex initial_state < ?n" using n by (simp add: initial_state_def)
  obtain s' where run: "issue K m initial_state =
                          Inr (map (rotation K (keyIndex initial_state)) [0..<m], s')"
    and idx: "keyIndex s' = (keyIndex initial_state + m) mod ?n"
    using issue_rotation[OF start, of m] by blast
  have "keyIndex s' < ?n" using idx n by simp
  moreover have "set (map (rotation K (keyIndex initial_state)) [0..<m]) \<subseteq> set (keys K)"
    using rotation_in_pool[OF assms] by auto
  ultimately show "\<exists>ks s'. issue K m initial_state = Inr (ks, s') \<and> keyIndex s' < ?n \<and>
                  set ks \<subseteq> set (keys K)"
    using run by blast
next
  let ?n = "length (keys K)"
  have n: "0 < ?n" using assms by simp
  assume in_range: "keyIndex s < ?n"
  obtain s1 where "getNextApiKey K s = Inr (keys K ! keyIndex s, s1)"
    and "keyIndex s1 = Suc (keyIndex s) mod ?n"
    using getNextApiKey_step[OF in_range] by blast
  moreover have "keys K ! keyIndex s \<in> set (keys K)" using in_range by simp
  ultimately show "\<exists>s'. getNextApiKey K s = Inr (keys K ! keyIndex s, s') \<and>
                  keys K ! keyIndex s \<in> set (keys K) \<and> keyIndex s' < ?n"
    using n by auto
  obtain k r s' where res: "executeWithRetry K operation random s = (r, s')"
    and in': "keyIndex s' < ?n"
    and eff: "performed s s' = rounds K (keyIndex s) random 0 k \<and>
            keyIndex s' = (keyIndex s + k) mod length (keys K) \<or>
            k < min (length (keys K)) 5 \<and>
            performed s s' = rounds K (keyIndex s) random 0 k @ [Invoke (rotation K (keyIndex s) k)] \<and>
            keyIndex s' = (keyIndex s + k + 1) mod length (keys K)"
    using executeWithRetry_shape[where op = operation and rnd = random, OF in_range] by blast
  show "keyIndex (snd (executeWithRetry K operation random s)) < ?n"
    using in' by (simp add: res)
  have "set (invocations (performed s s')) \<subseteq> set (keys K)"
    using eff rotation_in_pool[OF assms]
    by (auto simp add: invocations_append invocations_rounds)
  then show "set (invocations (performed s (snd (executeWithRetry K operation random s))))
              \<subseteq> set (keys K)"
    by (simp add: res)
qed

theorem cursor_stays_in_pool_witness:
  "keyIndex initial_state < length (keys (Some ''A, B ,C'')) \<and>
   (\<exists>ks s'. issue (Some ''A, B ,C'') 7 initial_state = Inr (ks, s') \<and> keyIndex s' < 3 \<and>
            set ks \<subseteq> {''A'', ''B'', ''C''}) \<and>
   keyIndex (snd (executeWithRetry (Some ''A, B ,C'') succeeds_second half
       \<lparr>keyIndex = 2, console = [], effects = []\<rparr>)) < 3 \<and>
   set (invocations (performed \<lparr>keyIndex = 2, console = [], effects = []\<rparr>
     (snd (executeWithRetry (Some ''A, B ,C'') succeeds_second half
       \<lparr>keyIndex = 2, console = [], effects = []\<rparr>)))) \<subseteq> {''A'', ''B'', ''C''}"
proof -
  have ne: "keys (Some ''A, B ,C'') \<noteq> []" by (simp add: keys_spaced)
  have len: "length (keys (Some ''A, B ,C'')) = 3" by (simp add: keys_spaced)
  show ?thesis
    using cursor_stays_in_pool[OF ne, where s = "\<lparr>keyIndex = 2, console = [], effects = []\<rparr>"
        and m = 7 and operation = succeeds_second and random = half,
        unfolded len, unfolded keys_spaced]
    by (simp add: len del: issue.simps)
qed

end
